theory Spec2Isabelle
  imports Main
begin

text \<open>
  A model of \<open>src/app.py\<close>: the parser of the redistribution status text, and the script
  under \<open>__main__\<close> that checks the status over SSH, enumerates the redistribution
  clients of the Panorama appliance through its API, queries each of them and prints one
  table. Line numbers refer to \<open>src/app.py\<close>.
\<close>

section \<open>Text, character classes and the three status patterns\<close>

text \<open>
  The status text is a Python \<open>str\<close>. A \<open>char\<close> stands for a code point below 256; the
  character classes are the ones Python's \<open>re\<close> uses for \<open>str\<close> patterns on that range
  (\<open>\s\<close>, \<open>\w\<close>, \<open>\d\<close> and \<open>.\<close> without DOTALL), and \<open>lower_char\<close> is \<open>str.lower\<close> there.
\<close>

definition is_space :: "char \<Rightarrow> bool" where
  "is_space c = (let n = (of_char c :: nat) in
     (9 \<le> n \<and> n \<le> 13) \<or> (28 \<le> n \<and> n \<le> 32) \<or> n = 133 \<or> n = 160)"

definition is_digit :: "char \<Rightarrow> bool" where
  "is_digit c = (let n = (of_char c :: nat) in 48 \<le> n \<and> n \<le> 57)"

definition is_word :: "char \<Rightarrow> bool" where
  "is_word c = (let n = (of_char c :: nat) in
     (48 \<le> n \<and> n \<le> 57) \<or> (65 \<le> n \<and> n \<le> 90) \<or> n = 95 \<or> (97 \<le> n \<and> n \<le> 122) \<or>
     n = 170 \<or> (178 \<le> n \<and> n \<le> 179) \<or> n = 181 \<or> (185 \<le> n \<and> n \<le> 186) \<or>
     (188 \<le> n \<and> n \<le> 190) \<or> (192 \<le> n \<and> n \<le> 214) \<or> (216 \<le> n \<and> n \<le> 246) \<or>
     (248 \<le> n \<and> n \<le> 255))"

definition is_dot :: "char \<Rightarrow> bool" where
  "is_dot c = (c \<noteq> CHR 0x0A)"

definition lower_char :: "char \<Rightarrow> char" where
  "lower_char c = (let n = (of_char c :: nat) in
     if (65 \<le> n \<and> n \<le> 90) \<or> (192 \<le> n \<and> n \<le> 214) \<or> (216 \<le> n \<and> n \<le> 222)
     then char_of (n + 32) else c)"

definition py_lower :: "string \<Rightarrow> string" where
  "py_lower s = map lower_char s"

text \<open>\<open>s.replace(" ", "_")\<close>: every space becomes an underscore.\<close>

definition replace_space :: "string \<Rightarrow> string" where
  "replace_space s = map (\<lambda>c. if c = CHR '' '' then CHR ''_'' else c) s"

text \<open>
  \<open>int(s)\<close> on a run of decimal digits. CPython refuses to convert a string of more
  than \<open>sys.get_int_max_str_digits()\<close> digits, 4300 unless the interpreter is configured
  otherwise, and raises \<open>ValueError\<close>; leading zeros count. Below the limit the value is
  an unbounded integer. Any string that is not a run of digits is reported as
  \<open>ValueError\<close> too (\<open>None\<close> here); Python accepts a few more spellings, none of which
  \<open>\d+\<close> can capture.
\<close>

definition digit_val :: "char \<Rightarrow> int" where
  "digit_val c = int (of_char c) - 48"

definition int_max_str_digits :: nat where
  "int_max_str_digits = 4300"

definition py_int :: "string \<Rightarrow> int option" where
  "py_int s = (if s \<noteq> [] \<and> list_all is_digit s \<and> length s \<le> int_max_str_digits
               then Some (foldl (\<lambda>a c. 10 * a + digit_val c) 0 s) else None)"

text \<open>
  Each of the three patterns is a literal, then \<open>\s+\<close>, then one capturing group \<open>C+\<close> for
  a character class \<open>C\<close>. \<open>backtrack\<close> is the greedy \<open>\s+\<close> giving characters back one at a
  time (from the longest run of \<open>n\<close> white-space characters down to one) until the group
  matches; the group itself is greedy and nothing follows it, so it takes the longest run.
  \<open>match_at\<close> is a match attempt at the start of \<open>s\<close>; \<open>re_search\<close> tries every start
  position from the left, as \<open>re.search\<close> does, and returns \<open>group(1)\<close>.
\<close>

fun backtrack :: "(char \<Rightarrow> bool) \<Rightarrow> string \<Rightarrow> nat \<Rightarrow> string option" where
  "backtrack cls r 0 = None"
| "backtrack cls r (Suc k) =
     (let cap = takeWhile cls (drop (Suc k) r)
      in if cap \<noteq> [] then Some cap else backtrack cls r k)"

definition match_at :: "string \<Rightarrow> (char \<Rightarrow> bool) \<Rightarrow> string \<Rightarrow> string option" where
  "match_at lit cls s =
     (if take (length lit) s = lit
      then (let r = drop (length lit) s in backtrack cls r (length (takeWhile is_space r)))
      else None)"

fun re_search :: "string \<Rightarrow> (char \<Rightarrow> bool) \<Rightarrow> string \<Rightarrow> string option" where
  "re_search lit cls [] = match_at lit cls []"
| "re_search lit cls (c # s) =
     (case match_at lit cls (c # s) of
        Some cap \<Rightarrow> Some cap
      | None \<Rightarrow> re_search lit cls s)"

section \<open>Exceptions\<close>

text \<open>
  The exceptions the script can end with. \<open>PanDeviceError\<close> stands for the class of the
  API client and its subclasses, which is what \<open>except PanDeviceError\<close> catches;
  \<open>OtherError\<close> for any exception of a collaborator outside that class.
\<close>

datatype exn =
    NameError string
  | KeyError string
  | TypeError
  | ValueError
  | PanDeviceError
  | OtherError

section \<open>\<open>parse_status_command_output\<close>\<close>

text \<open>
  \<open>parsed_data\<close> is a dictionary with at most the three keys; a key that was never stored
  is \<open>None\<close>.
\<close>

record parsed_data =
  redistribution_status :: "string option"
  ssl_config :: "string option"
  number_of_clients :: "int option"

definition parse_status_command_output :: "string \<Rightarrow> exn + parsed_data" where
  "parse_status_command_output output =
     (let status = re_search ''Redistribution service:'' is_word output;
          ssl = re_search ''SSL config:'' is_dot output;
          clients = re_search ''number of clients:'' is_digit output;
          ssl' = (case ssl of None \<Rightarrow> None | Some s \<Rightarrow> Some (replace_space (py_lower s)))
      in case clients of
           None \<Rightarrow>
             Inr \<lparr>redistribution_status = status, ssl_config = ssl', number_of_clients = None\<rparr>
         | Some ds \<Rightarrow>
             (case py_int ds of
                None \<Rightarrow> Inl ValueError
              | Some n \<Rightarrow>
                  Inr \<lparr>redistribution_status = status, ssl_config = ssl',
                       number_of_clients = Some n\<rparr>))"

section \<open>Structured responses\<close>

text \<open>
  \<open>parse_xml_response\<close> turns an API response into what \<open>xmltodict.parse\<close> builds:
  dictionaries, lists, strings and \<open>None\<close>. A dictionary is an association list and
  \<open>subscript d k\<close> is Python's \<open>d[k]\<close> with a string key: \<open>KeyError\<close> on a dictionary
  without the key, \<open>TypeError\<close> on anything that is not a dictionary.
\<close>

datatype xv =
    XNone
  | XStr string
  | XDict "(string \<times> xv) list"
  | XList "xv list"

fun subscript :: "xv \<Rightarrow> string \<Rightarrow> exn + xv" where
  "subscript (XDict kvs) k = (case map_of kvs k of None \<Rightarrow> Inl (KeyError k) | Some v \<Rightarrow> Inr v)"
| "subscript XNone k = Inl TypeError"
| "subscript (XStr s) k = Inl TypeError"
| "subscript (XList xs) k = Inl TypeError"

definition rbind :: "exn + 'a \<Rightarrow> ('a \<Rightarrow> exn + 'b) \<Rightarrow> exn + 'b" where
  "rbind r f = (case r of Inl e \<Rightarrow> Inl e | Inr a \<Rightarrow> f a)"

section \<open>The collaborators and what a run does\<close>

text \<open>
  The SSH session (netmiko), the management API (pan-os-python) and \<open>tabulate\<close> are outside
  the program. A \<open>world\<close> fixes how they answer during one run: whether \<open>ConnectHandler\<close>
  succeeds, what \<open>send_command\<close> returns (\<open>None\<close>: it raises), whether
  \<open>refresh_system_info\<close> raises, and for every \<open>op\<close> call either the exception it raises
  or the dictionary \<open>parse_xml_response\<close> makes of its answer. A child firewall is
  identified by its position in \<open>pan.children\<close> and the serial it was created with.
\<close>

datatype cell = CX xv | CB bool

type_synonym fw = "(string \<times> cell) list"

record world =
  ssh_connect :: bool
  ssh_send :: "string option"
  api_validate :: "exn option"
  api_enumerate :: "exn + xv"
  api_connected :: "exn + xv"
  fw_redist :: "nat \<Rightarrow> xv \<Rightarrow> exn + xv"
  fw_sysinfo :: "nat \<Rightarrow> xv \<Rightarrow> exn + xv"
  tabulate :: "cell list list \<Rightarrow> string list \<Rightarrow> string"

text \<open>
  What a run does is recorded as a trace of events, in program order. A \<open>Log\<close> event is
  a call of \<open>logging.debug\<close> or \<open>logging.error\<close> with the fixed part of its message,
  or the name of the variable when the message is a value. \<open>ApiRegister\<close> is \<open>pan.add\<close>
  of a \<open>Firewall\<close> with the given serial; the other API events are the calls of
  \<open>refresh_system_info\<close> and \<open>op\<close> on the controller and on the child at a position.
\<close>

datatype level = Debug | Error

datatype event =
    SshConnect
  | SshSend
  | SshDisconnect
  | Log level string
  | ApiValidate
  | ApiEnumerate
  | ApiRegister xv
  | ApiConnected
  | FwRedist nat xv
  | FwSysInfo nat xv
  | Print string

text \<open>
  A step of the script yields the events it performed and either the exception that ended
  it or its value. \<open>seq\<close> runs two steps one after the other; an exception skips the rest.
\<close>

type_synonym 'a step = "event list \<times> (exn + 'a)"

definition seq :: "'a step \<Rightarrow> ('a \<Rightarrow> 'b step) \<Rightarrow> 'b step" where
  "seq m f = (case m of
                (t, Inl e) \<Rightarrow> (t, Inl e)
              | (t, Inr a) \<Rightarrow> (case f a of (t', r) \<Rightarrow> (t @ t', r)))"

definition is_pan_device_error :: "exn \<Rightarrow> bool" where
  "is_pan_device_error e = (e = PanDeviceError)"

subsection \<open>The SSH phase\<close>

text \<open>
  \<open>connect_to_panorama\<close> returns the session, or logs and returns \<open>None\<close> when
  \<open>ConnectHandler\<close> raises.
\<close>

definition connect_to_panorama :: "world \<Rightarrow> bool step" where
  "connect_to_panorama w =
     (if ssh_connect w
      then ([SshConnect, Log Debug ''Connected successfully to the device.''], Inr True)
      else ([SshConnect, Log Error ''Error connecting to the device''], Inr False))"

text \<open>
  \<open>send_command_to_panorama\<close> returns the output, or logs and returns \<open>None\<close> when
  \<open>send_command\<close> raises.
\<close>

definition send_command_to_panorama :: "world \<Rightarrow> string option step" where
  "send_command_to_panorama w =
     (case ssh_send w of
        Some output \<Rightarrow>
          ([Log Debug ''Sending command'', SshSend, Log Debug ''Command executed.''],
           Inr (Some output))
      | None \<Rightarrow>
          ([Log Debug ''Sending command'', SshSend, Log Error ''Error sending command''],
           Inr None))"

text \<open>
  Lines 117 to 142. The value is the binding of the variable \<open>parsed_output\<close> afterwards:
  \<open>None\<close> when it was never assigned. An output is truthy when it is a non-empty string.
\<close>

definition netmiko_phase :: "world \<Rightarrow> parsed_data option step" where
  "netmiko_phase w =
     seq (connect_to_panorama w) (\<lambda>net_connect.
       if net_connect then
         seq (send_command_to_panorama w) (\<lambda>status_output.
           seq (case status_output of
                  None \<Rightarrow> ([Log Debug ''No output received from the command.''], Inr None)
                | Some output \<Rightarrow>
                    if output \<noteq> [] then
                      (case parse_status_command_output output of
                         Inl e \<Rightarrow> ([Log Debug ''Command output:'', Log Debug ''output''], Inl e)
                       | Inr parsed \<Rightarrow>
                           ([Log Debug ''Command output:'', Log Debug ''output'',
                             Log Debug ''parsed_output''], Inr (Some parsed)))
                    else ([Log Debug ''No output received from the command.''], Inr None))
               (\<lambda>parsed_output. ([SshDisconnect], Inr parsed_output)))
       else ([Log Error ''Unable to establish connection with the device.''], Inr None))"

subsection \<open>The gate\<close>

text \<open>
  Lines 145 to 148: \<open>parsed_output["redistribution_status"] == "up" and
  parsed_output["ssl_config"] == "default_certificates"\<close>. Reading an unassigned variable
  is a \<open>NameError\<close>, a missing key a \<open>KeyError\<close>; \<open>and\<close> evaluates its right operand
  only when the left one is true.
\<close>

definition gate_check :: "parsed_data option \<Rightarrow> exn + bool" where
  "gate_check parsed_output =
     (case parsed_output of
        None \<Rightarrow> Inl (NameError ''parsed_output'')
      | Some p \<Rightarrow>
          (case redistribution_status p of
             None \<Rightarrow> Inl (KeyError ''redistribution_status'')
           | Some status \<Rightarrow>
               if status = ''up'' then
                 (case ssl_config p of
                    None \<Rightarrow> Inl (KeyError ''ssl_config'')
                  | Some ssl \<Rightarrow> Inr (ssl = ''default_certificates''))
               else Inr False))"

definition gate_phase :: "world \<Rightarrow> bool step" where
  "gate_phase w = seq (netmiko_phase w) (\<lambda>parsed_output. ([], gate_check parsed_output))"

subsection \<open>Enumeration and registration\<close>

text \<open>
  Lines 157 to 161: only a \<open>PanDeviceError\<close> is caught; it is logged and the script goes
  on. Any other exception leaves the script.
\<close>

definition validate_creds :: "world \<Rightarrow> unit step" where
  "validate_creds w =
     (case api_validate w of
        None \<Rightarrow>
          ([ApiValidate, Log Debug ''Successfully connected to Panorama with credientials''],
           Inr ())
      | Some e \<Rightarrow>
          if is_pan_device_error e
          then ([ApiValidate, Log Error ''Failed to connect to Panorama''], Inr ())
          else ([ApiValidate], Inl e))"

text \<open>Lines 180 to 182: one \<open>Firewall\<close> per element, added to \<open>pan.children\<close> in order.\<close>

fun register_each :: "xv list \<Rightarrow> xv list \<Rightarrow> xv list step" where
  "register_each children [] = ([], Inr children)"
| "register_each children (each # rest) =
     (case subscript each ''host'' of
        Inl e \<Rightarrow> ([], Inl e)
      | Inr host \<Rightarrow> seq ([ApiRegister host], Inr ()) (\<lambda>_. register_each (children @ [host]) rest))"

text \<open>
  Lines 174 to 182 on the value of \<open>[...]["entry"]\<close>; the value is \<open>pan.children\<close>, each
  child standing for the serial it was created with. Iterating over a string yields its
  characters as strings; \<open>None\<close> is not iterable.
\<close>

definition register_members :: "xv \<Rightarrow> xv list step" where
  "register_members entry =
     (case entry of
        XDict kvs \<Rightarrow>
          (case subscript entry ''host'' of
             Inl e \<Rightarrow> ([], Inl e)
           | Inr host \<Rightarrow> ([ApiRegister host], Inr [host]))
      | XList entries \<Rightarrow> register_each [] entries
      | XStr s \<Rightarrow> register_each [] (map (\<lambda>c. XStr [c]) s)
      | XNone \<Rightarrow> ([], Inl TypeError))"

definition op_step :: "event \<Rightarrow> exn + xv \<Rightarrow> xv step" where
  "op_step ev answer = ([ev], answer)"

definition entry_of :: "xv \<Rightarrow> exn + xv" where
  "entry_of list_of_redist_clients =
     rbind (subscript list_of_redist_clients ''response'') (\<lambda>response.
     rbind (subscript response ''result'') (\<lambda>result.
     subscript result ''entry''))"

text \<open>Lines 164 to 192; the value is \<open>pan.children\<close>.\<close>

definition enumerate_members :: "world \<Rightarrow> xv list step" where
  "enumerate_members w =
     seq (op_step ApiEnumerate (api_enumerate w)) (\<lambda>list_of_redist_clients.
     seq ([Log Debug ''list_of_redist_clients''], entry_of list_of_redist_clients) (\<lambda>entry.
     seq (register_members entry) (\<lambda>children.
     seq ([Log Debug ''pan.children''], Inr ()) (\<lambda>_.
     seq (op_step ApiConnected (api_connected w)) (\<lambda>list_of_connected_devices.
     ([], Inr children))))))"

text \<open>Lines 157 to 192: the credential check, then the enumeration.\<close>

definition enumerate_phase :: "world \<Rightarrow> xv list step" where
  "enumerate_phase w = seq (validate_creds w) (\<lambda>_. enumerate_members w)"

subsection \<open>Per-device collection\<close>

text \<open>
  Lines 211 to 229: the record of one device from its two parsed answers. The seven
  descriptive fields are read first, in the order of the dictionary display, then
  \<open>redist_client_firewall_info["response"]["result"] is not None\<close>.
\<close>

definition build_fw :: "xv \<Rightarrow> xv \<Rightarrow> exn + fw" where
  "build_fw redist_client_firewall_info system_info =
     rbind (subscript system_info ''response'') (\<lambda>response.
     rbind (subscript response ''result'') (\<lambda>result.
     rbind (subscript result ''system'') (\<lambda>fw_info.
     rbind (subscript fw_info ''hostname'') (\<lambda>hostname.
     rbind (subscript fw_info ''ip-address'') (\<lambda>ipaddress.
     rbind (subscript fw_info ''serial'') (\<lambda>serial.
     rbind (subscript fw_info ''model'') (\<lambda>model.
     rbind (subscript fw_info ''sw-version'') (\<lambda>sw_version.
     rbind (subscript fw_info ''app-version'') (\<lambda>app_version.
     rbind (subscript fw_info ''device-certificate-status'') (\<lambda>device_cert_status.
     rbind (subscript redist_client_firewall_info ''response'') (\<lambda>redist_response.
     rbind (subscript redist_response ''result'') (\<lambda>redist_result.
       Inr [(''hostname'', CX hostname),
            (''ipaddress'', CX ipaddress),
            (''serial'', CX serial),
            (''model'', CX model),
            (''sw_version'', CX sw_version),
            (''app_version'', CX app_version),
            (''device_cert_status'', CX device_cert_status),
            (''redistr_server'', CB (redist_result \<noteq> XNone))]))))))))))))"

text \<open>Lines 198 to 227 for the child at position \<open>i\<close> with serial \<open>s\<close>.\<close>

definition collect_device :: "world \<Rightarrow> nat \<Rightarrow> xv \<Rightarrow> fw step" where
  "collect_device w i s =
     seq (op_step (FwRedist i s) (fw_redist w i s)) (\<lambda>redist_client_firewall_info.
     seq ([Log Debug ''redist_client_firewall_info''], Inr ()) (\<lambda>_.
     seq (op_step (FwSysInfo i s) (fw_sysinfo w i s)) (\<lambda>system_info.
     ([], build_fw redist_client_firewall_info system_info))))"

text \<open>
  Lines 197 to 229: the loop over \<open>pan.children\<close> from position \<open>i\<close> on, with
  \<open>redis_client_list\<close> as accumulator.
\<close>

fun collect_loop :: "world \<Rightarrow> nat \<Rightarrow> xv list \<Rightarrow> fw list \<Rightarrow> fw list step" where
  "collect_loop w i [] redis_client_list = ([], Inr redis_client_list)"
| "collect_loop w i (s # rest) redis_client_list =
     seq (collect_device w i s) (\<lambda>fw.
       collect_loop w (Suc i) rest (redis_client_list @ [fw]))"

subsection \<open>Rendering and the whole script\<close>

text \<open>Lines 232 to 240.\<close>

definition make_table :: "world \<Rightarrow> fw list \<Rightarrow> string" where
  "make_table w redis_client_list =
     (let headers = (case redis_client_list of [] \<Rightarrow> [] | first # _ \<Rightarrow> map fst first);
          table_data = map (map snd) redis_client_list
      in tabulate w table_data headers)"

definition render :: "world \<Rightarrow> fw list \<Rightarrow> (fw list \<times> string) step" where
  "render w redis_client_list =
     (let table = make_table w redis_client_list
      in ([Print table], Inr (redis_client_list, table)))"

definition audit :: "world \<Rightarrow> (fw list \<times> string) step" where
  "audit w =
     seq (enumerate_phase w) (\<lambda>children.
     seq (collect_loop w 0 children []) (\<lambda>redis_client_list.
     render w redis_client_list))"

text \<open>
  How a run ends: with an uncaught exception, at the gate without entering the audit
  (the \<open>if\<close> of line 145 is false and the script is over), or with the report printed.
\<close>

datatype outcome =
    Raised exn
  | GateSkipped
  | Complete "fw list" string

definition main :: "world \<Rightarrow> event list \<times> outcome" where
  "main w =
     (case seq (gate_phase w) (\<lambda>proceed.
             if proceed then seq (audit w) (\<lambda>r. ([], Inr (Some r))) else ([], Inr None)) of
        (t, Inl e) \<Rightarrow> (t, Raised e)
      | (t, Inr None) \<Rightarrow> (t, GateSkipped)
      | (t, Inr (Some (report, table))) \<Rightarrow> (t, Complete report table))"

section \<open>Notions used to state the properties\<close>

text \<open>
  What it means for the text to contain a pattern, said without the search: the text
  splits into a prefix, the literal, a non-empty run of white space, a non-empty run \<open>cap\<close>
  of the class, and a rest.
\<close>

definition captured :: "string \<Rightarrow> (char \<Rightarrow> bool) \<Rightarrow> string \<Rightarrow> string \<Rightarrow> bool" where
  "captured lit cls text cap =
     (\<exists>pre ws rest. text = pre @ lit @ ws @ cap @ rest \<and> ws \<noteq> [] \<and> list_all is_space ws \<and>
        cap \<noteq> [] \<and> list_all cls cap)"

definition has_match :: "string \<Rightarrow> (char \<Rightarrow> bool) \<Rightarrow> string \<Rightarrow> bool" where
  "has_match lit cls text = (\<exists>cap. captured lit cls text cap)"

text \<open>
  What \<open>re.search(pattern, text).group(1)\<close> is, said without the search. A reading of
  \<open>s\<close> as a match that starts at its first character splits \<open>s\<close> into the literal, the
  white space \<open>ws\<close>, the group \<open>cap\<close> and a rest. Both quantifiers are greedy and the
  white space comes first: the match is the reading with the longest \<open>ws\<close> and, for that
  \<open>ws\<close>, the longest \<open>cap\<close>. The search returns the match at the leftmost position of
  the text at which there is a reading.
\<close>

definition reading :: "string \<Rightarrow> (char \<Rightarrow> bool) \<Rightarrow> string \<Rightarrow> string \<Rightarrow> string \<Rightarrow> string \<Rightarrow> bool" where
  "reading lit cls s ws cap rest =
     (s = lit @ ws @ cap @ rest \<and> ws \<noteq> [] \<and> list_all is_space ws \<and>
      cap \<noteq> [] \<and> list_all cls cap)"

definition matches_at :: "string \<Rightarrow> (char \<Rightarrow> bool) \<Rightarrow> string \<Rightarrow> bool" where
  "matches_at lit cls s = (\<exists>ws cap rest. reading lit cls s ws cap rest)"

definition greedy_at :: "string \<Rightarrow> (char \<Rightarrow> bool) \<Rightarrow> string \<Rightarrow> string \<Rightarrow> bool" where
  "greedy_at lit cls s cap =
     (\<exists>ws rest. reading lit cls s ws cap rest \<and>
        (\<forall>ws' cap' rest'. reading lit cls s ws' cap' rest' \<longrightarrow>
           length ws' < length ws \<or> (length ws' = length ws \<and> length cap' \<le> length cap)))"

definition re_group :: "string \<Rightarrow> (char \<Rightarrow> bool) \<Rightarrow> string \<Rightarrow> string \<Rightarrow> bool" where
  "re_group lit cls text cap =
     (\<exists>pre s. text = pre @ s \<and> greedy_at lit cls s cap \<and>
        (\<forall>pre' s'. text = pre' @ s' \<and> length pre' < length pre \<longrightarrow> \<not> matches_at lit cls s'))"

text \<open>
  The client count fits \<open>int\<close>: the digits the count pattern captures, if any, are no
  more than the limit.
\<close>

definition count_fits :: "string \<Rightarrow> bool" where
  "count_fits text =
     (\<forall>ds. re_group ''number of clients:'' is_digit text ds \<longrightarrow> length ds \<le> int_max_str_digits)"

text \<open>The value of a decimal numeral, digit by digit.\<close>

definition decimal :: "string \<Rightarrow> int" where
  "decimal ds = (\<Sum>i<length ds. digit_val (ds ! i) * 10 ^ (length ds - Suc i))"

text \<open>The events that are operations of the management API.\<close>

definition is_api :: "event \<Rightarrow> bool" where
  "is_api ev = (case ev of
      ApiValidate \<Rightarrow> True | ApiEnumerate \<Rightarrow> True | ApiRegister h \<Rightarrow> True | ApiConnected \<Rightarrow> True
    | FwRedist i s \<Rightarrow> True | FwSysInfo i s \<Rightarrow> True | _ \<Rightarrow> False)"

text \<open>The \<open>host\<close> field of an enumeration entry, when the entry is an object that has one.\<close>

definition host_of :: "xv \<Rightarrow> xv option" where
  "host_of each = (case each of XDict kvs \<Rightarrow> map_of kvs ''host'' | _ \<Rightarrow> None)"


text \<open>The keys of a device record, in the order in which the script stores them.\<close>



section \<open>The parser over the character tables of the runtime\<close>

text \<open>
  A Python string holds any code point. Which code points are white space, word
  characters and decimal digits, the value of a digit and the lower-case form of a string
  come from the Unicode database of the interpreter, which is not part of the program.
  Here they are parameters: \<open>'c\<close> is the type of code points and \<open>u_chr\<close> gives the code
  point of an ASCII character, for the literals of the patterns, the newline that \<open>.\<close>
  excludes, and the space and the underscore of \<open>replace\<close>. The definitions below are
  those of the parser above with the tables as an argument; \<open>latin1\<close> are the tables
  used above, for the code points below 256.
\<close>

record 'c chars =
  u_chr :: "char \<Rightarrow> 'c"
  u_space :: "'c \<Rightarrow> bool"
  u_word :: "'c \<Rightarrow> bool"
  u_digit :: "'c \<Rightarrow> bool"
  u_value :: "'c \<Rightarrow> int"
  u_lower :: "'c list \<Rightarrow> 'c list"

definition latin1 :: "char chars" where
  "latin1 = \<lparr>u_chr = (\<lambda>c. c), u_space = is_space, u_word = is_word, u_digit = is_digit,
             u_value = digit_val, u_lower = py_lower\<rparr>"

definition u_lit :: "'c chars \<Rightarrow> string \<Rightarrow> 'c list" where
  "u_lit U s = map (u_chr U) s"

definition u_dot :: "'c chars \<Rightarrow> 'c \<Rightarrow> bool" where
  "u_dot U c = (c \<noteq> u_chr U (CHR 0x0A))"

definition u_replace_space :: "'c chars \<Rightarrow> 'c list \<Rightarrow> 'c list" where
  "u_replace_space U s = map (\<lambda>c. if c = u_chr U CHR '' '' then u_chr U CHR ''_'' else c) s"

definition u_int :: "'c chars \<Rightarrow> 'c list \<Rightarrow> int option" where
  "u_int U s = (if s \<noteq> [] \<and> list_all (u_digit U) s \<and> length s \<le> int_max_str_digits
                then Some (foldl (\<lambda>a c. 10 * a + u_value U c) 0 s) else None)"

fun u_backtrack :: "('c \<Rightarrow> bool) \<Rightarrow> 'c list \<Rightarrow> nat \<Rightarrow> 'c list option" where
  "u_backtrack cls r 0 = None"
| "u_backtrack cls r (Suc k) =
     (let cap = takeWhile cls (drop (Suc k) r)
      in if cap \<noteq> [] then Some cap else u_backtrack cls r k)"

definition u_match_at :: "'c chars \<Rightarrow> 'c list \<Rightarrow> ('c \<Rightarrow> bool) \<Rightarrow> 'c list \<Rightarrow> 'c list option" where
  "u_match_at U lit cls s =
     (if take (length lit) s = lit
      then (let r = drop (length lit) s
            in u_backtrack cls r (length (takeWhile (u_space U) r)))
      else None)"

fun u_search :: "'c chars \<Rightarrow> 'c list \<Rightarrow> ('c \<Rightarrow> bool) \<Rightarrow> 'c list \<Rightarrow> 'c list option" where
  "u_search U lit cls [] = u_match_at U lit cls []"
| "u_search U lit cls (c # s) =
     (case u_match_at U lit cls (c # s) of
        Some cap \<Rightarrow> Some cap
      | None \<Rightarrow> u_search U lit cls s)"

record 'c u_parsed_data =
  u_redistribution_status :: "'c list option"
  u_ssl_config :: "'c list option"
  u_number_of_clients :: "int option"

definition u_parse :: "'c chars \<Rightarrow> 'c list \<Rightarrow> exn + 'c u_parsed_data" where
  "u_parse U output =
     (let status = u_search U (u_lit U ''Redistribution service:'') (u_word U) output;
          ssl = u_search U (u_lit U ''SSL config:'') (u_dot U) output;
          clients = u_search U (u_lit U ''number of clients:'') (u_digit U) output;
          ssl' = (case ssl of None \<Rightarrow> None | Some s \<Rightarrow> Some (u_replace_space U (u_lower U s)))
      in case clients of
           None \<Rightarrow>
             Inr \<lparr>u_redistribution_status = status, u_ssl_config = ssl',
                  u_number_of_clients = None\<rparr>
         | Some ds \<Rightarrow>
             (case u_int U ds of
                None \<Rightarrow> Inl ValueError
              | Some n \<Rightarrow>
                  Inr \<lparr>u_redistribution_status = status, u_ssl_config = ssl',
                       u_number_of_clients = Some n\<rparr>))"

text \<open>The record of the parser above that a record over \<open>latin1\<close> stands for.\<close>

definition of_latin1 :: "char u_parsed_data \<Rightarrow> parsed_data" where
  "of_latin1 p = \<lparr>redistribution_status = u_redistribution_status p,
                  ssl_config = u_ssl_config p,
                  number_of_clients = u_number_of_clients p\<rparr>"

text \<open>
  The notions used to state the properties, over the tables: a reading of \<open>s\<close> as a
  match, the greedy match at the start of \<open>s\<close>, the group of the leftmost greedy match in
  a text, a text that contains a pattern, a client count that \<open>int\<close> converts, and the
  decimal value of a run of digits.
\<close>

definition u_reading :: "'c chars \<Rightarrow> 'c list \<Rightarrow> ('c \<Rightarrow> bool) \<Rightarrow> 'c list \<Rightarrow> 'c list \<Rightarrow> 'c list \<Rightarrow> 'c list \<Rightarrow> bool" where
  "u_reading U lit cls s ws cap rest =
     (s = lit @ ws @ cap @ rest \<and> ws \<noteq> [] \<and> list_all (u_space U) ws \<and>
      cap \<noteq> [] \<and> list_all cls cap)"

definition u_matches_at :: "'c chars \<Rightarrow> 'c list \<Rightarrow> ('c \<Rightarrow> bool) \<Rightarrow> 'c list \<Rightarrow> bool" where
  "u_matches_at U lit cls s = (\<exists>ws cap rest. u_reading U lit cls s ws cap rest)"

definition u_greedy_at :: "'c chars \<Rightarrow> 'c list \<Rightarrow> ('c \<Rightarrow> bool) \<Rightarrow> 'c list \<Rightarrow> 'c list \<Rightarrow> bool" where
  "u_greedy_at U lit cls s cap =
     (\<exists>ws rest. u_reading U lit cls s ws cap rest \<and>
        (\<forall>ws' cap' rest'. u_reading U lit cls s ws' cap' rest' \<longrightarrow>
           length ws' < length ws \<or> (length ws' = length ws \<and> length cap' \<le> length cap)))"

definition u_group :: "'c chars \<Rightarrow> 'c list \<Rightarrow> ('c \<Rightarrow> bool) \<Rightarrow> 'c list \<Rightarrow> 'c list \<Rightarrow> bool" where
  "u_group U lit cls text cap =
     (\<exists>pre s. text = pre @ s \<and> u_greedy_at U lit cls s cap \<and>
        (\<forall>pre' s'. text = pre' @ s' \<and> length pre' < length pre \<longrightarrow> \<not> u_matches_at U lit cls s'))"

definition u_has_match :: "'c chars \<Rightarrow> 'c list \<Rightarrow> ('c \<Rightarrow> bool) \<Rightarrow> 'c list \<Rightarrow> bool" where
  "u_has_match U lit cls text = (\<exists>pre s. text = pre @ s \<and> u_matches_at U lit cls s)"

definition u_count_fits :: "'c chars \<Rightarrow> 'c list \<Rightarrow> bool" where
  "u_count_fits U text =
     (\<forall>ds. u_group U (u_lit U ''number of clients:'') (u_digit U) text ds \<longrightarrow>
        length ds \<le> int_max_str_digits)"

definition u_decimal :: "'c chars \<Rightarrow> 'c list \<Rightarrow> int" where
  "u_decimal U ds = (\<Sum>i<length ds. u_value U (ds ! i) * 10 ^ (length ds - Suc i))"

section \<open>Example runs\<close>

text \<open>
  A controller whose status text passes the gate and which enumerates three members that
  all answer, and variations of it.
\<close>

definition status_example :: string where
  "status_example =
     ''Redistribution service: up\<newline>SSL config: Default certificates\<newline>number of clients: 3''"

text \<open>A client count of 4301 digits, alone and in the three-line status text.\<close>

definition long_count :: string where
  "long_count = replicate 4301 CHR ''7''"

definition long_count_text :: string where
  "long_count_text = ''number of clients: '' @ long_count"

definition long_status_text :: string where
  "long_status_text =
     ''Redistribution service: up\<newline>SSL config: Default certificates\<newline>number of clients: '' @
     long_count"

definition in_response :: "string \<Rightarrow> xv \<Rightarrow> xv" where
  "in_response k v = XDict [(''response'', XDict [(''result'', XDict [(k, v)])])]"

definition system_info_of :: "string \<Rightarrow> xv" where
  "system_info_of name =
     in_response ''system''
       (XDict [(''hostname'', XStr name), (''ip-address'', XStr ''192.0.2.1''),
               (''serial'', XStr name), (''model'', XStr ''PA-440''),
               (''sw-version'', XStr ''11.0.2''), (''app-version'', XStr ''8700-1''),
               (''device-certificate-status'', XStr ''Valid'')])"





definition member :: "string \<Rightarrow> xv" where
  "member name = XDict [(''host'', XStr name)]"

definition hostless :: "xv" where
  "hostless = XDict [(''serial'', XStr ''B'')]"

definition no_clients :: "xv" where
  "no_clients = XDict [(''response'', XDict [(''result'', XNone)])]"

definition fleet :: "world" where
  "fleet =
     \<lparr>ssh_connect = True,
      ssh_send = Some status_example,
      api_validate = None,
      api_enumerate = Inr (in_response ''entry'' (XList [member ''A'', member ''B'', member ''C''])),
      api_connected = Inr XNone,
      fw_redist = (\<lambda>i s. Inr no_clients),
      fw_sysinfo = (\<lambda>i s. case s of XStr name \<Rightarrow> Inr (system_info_of name) | _ \<Rightarrow> Inl OtherError),
      tabulate = (\<lambda>table_data headers. ''grid'')\<rparr>"

definition second_member_fails :: world where
  "second_member_fails =
     fleet\<lparr>fw_sysinfo := (\<lambda>i s. if i = 1 then Inl PanDeviceError else fw_sysinfo fleet i s)\<rparr>"



definition hostless_run :: world where
  "hostless_run = fleet\<lparr>api_enumerate := Inr (in_response ''entry'' hostless)\<rparr>"

definition long_count_run :: world where
  "long_count_run = fleet\<lparr>ssh_send := Some long_status_text\<rparr>"

definition validation_rejected :: world where
  "validation_rejected =
     fleet\<lparr>api_validate := Some PanDeviceError,
           api_enumerate := Inr (in_response ''entry'' (member ''A''))\<rparr>"

text \<open>
  The events of the SSH phase and of the enumeration in these runs, and what one device
  contributes to the trace and to the report.
\<close>

definition gate_trace :: "event list" where
  "gate_trace =
     [SshConnect, Log Debug ''Connected successfully to the device.'',
      Log Debug ''Sending command'', SshSend, Log Debug ''Command executed.'',
      Log Debug ''Command output:'', Log Debug ''output'', Log Debug ''parsed_output'',
      SshDisconnect]"

definition fleet_enumeration_trace :: "event list" where
  "fleet_enumeration_trace =
     [ApiValidate, Log Debug ''Successfully connected to Panorama with credientials'',
      ApiEnumerate, Log Debug ''list_of_redist_clients'',
      ApiRegister (XStr ''A''), ApiRegister (XStr ''B''), ApiRegister (XStr ''C''),
      Log Debug ''pan.children'', ApiConnected]"

definition device_trace :: "nat \<Rightarrow> string \<Rightarrow> event list" where
  "device_trace i name =
     [FwRedist i (XStr name), Log Debug ''redist_client_firewall_info'', FwSysInfo i (XStr name)]"

definition fact_of :: "string \<Rightarrow> fw" where
  "fact_of name =
     [(''hostname'', CX (XStr name)), (''ipaddress'', CX (XStr ''192.0.2.1'')),
      (''serial'', CX (XStr name)), (''model'', CX (XStr ''PA-440'')),
      (''sw_version'', CX (XStr ''11.0.2'')), (''app_version'', CX (XStr ''8700-1'')),
      (''device_cert_status'', CX (XStr ''Valid'')), (''redistr_server'', CB False)]"


section \<open>The status parser\<close>

text \<open>
  \<open>backtrack\<close> fails exactly when no split of the white space leaves a non-empty run of
  the class behind it, and a capture it returns comes from such a split.
\<close>

lemma backtrack_None:
  "backtrack cls r n = None \<longleftrightarrow> (\<forall>k. 1 \<le> k \<and> k \<le> n \<longrightarrow> takeWhile cls (drop k r) = [])"
proof (induction n)
  case 0
  show ?case by simp
next
  case (Suc n)
  have "(\<forall>k. 1 \<le> k \<and> k \<le> Suc n \<longrightarrow> takeWhile cls (drop k r) = []) \<longleftrightarrow>
        takeWhile cls (drop (Suc n) r) = [] \<and> (\<forall>k. 1 \<le> k \<and> k \<le> n \<longrightarrow> takeWhile cls (drop k r) = [])"
    by (metis le_Suc_eq le_SucI le_add1 plus_1_eq_Suc)
  with Suc show ?case by (simp add: Let_def)
qed

lemma backtrack_Some:
  "backtrack cls r n = Some cap \<Longrightarrow>
     \<exists>k. 1 \<le> k \<and> k \<le> n \<and> cap = takeWhile cls (drop k r) \<and> cap \<noteq> []"
proof (induction n)
  case 0
  then show ?case by simp
next
  case (Suc n)
  show ?case
  proof (cases "takeWhile cls (drop (Suc n) r) = []")
    case True
    with Suc.prems have "backtrack cls r n = Some cap" by (simp add: Let_def)
    from Suc.IH[OF this] obtain k where "1 \<le> k" "k \<le> n" "cap = takeWhile cls (drop k r)" "cap \<noteq> []"
      by blast
    then show ?thesis by (intro exI[of _ k]) simp
  next
    case False
    with Suc.prems have "cap = takeWhile cls (drop (Suc n) r)" by (simp add: Let_def)
    with False show ?thesis by (intro exI[of _ "Suc n"]) simp
  qed
qed

lemma list_all_takeWhile: "list_all P (takeWhile P xs)"
  by (induction xs) auto

text \<open>
  A match attempt agrees with the declarative reading of the pattern, in both directions.
\<close>

lemma match_at_sound:
  assumes "match_at lit cls s = Some cap"
  shows "\<exists>ws rest. s = lit @ ws @ cap @ rest \<and> ws \<noteq> [] \<and> list_all is_space ws \<and>
           cap \<noteq> [] \<and> list_all cls cap"
proof -
  define r where "r = drop (length lit) s"
  from assms have lit: "take (length lit) s = lit"
    and bt: "backtrack cls r (length (takeWhile is_space r)) = Some cap"
    by (auto simp: match_at_def r_def Let_def split: if_splits)
  from backtrack_Some[OF bt] obtain k where k: "1 \<le> k" "k \<le> length (takeWhile is_space r)"
    "cap = takeWhile cls (drop k r)" "cap \<noteq> []" by blast
  have s: "s = lit @ r" using lit unfolding r_def by (metis append_take_drop_id)
  have "take k r = take k (takeWhile is_space r @ dropWhile is_space r)" by simp
  also have "\<dots> = take k (takeWhile is_space r)" using k(2) by (simp del: takeWhile_dropWhile_id)
  finally have tk: "take k r = take k (takeWhile is_space r)" .
  have sp: "list_all is_space (take k r)"
    unfolding tk using list_all_takeWhile[of is_space r]
    by (metis append_take_drop_id list_all_append)
  have ne: "take k r \<noteq> []" using k(1) k(4) k(3) by (cases r) auto
  have "r = take k r @ cap @ dropWhile cls (drop k r)"
    unfolding k(3) by simp
  with s sp ne k(4) list_all_takeWhile[of cls "drop k r"] k(3) show ?thesis
    by (metis)
qed

lemma takeWhile_all_append: "list_all P ws \<Longrightarrow> takeWhile P (ws @ ys) = ws @ takeWhile P ys"
  by (induction ws) auto

lemma match_at_complete:
  assumes "ws \<noteq> []" "list_all is_space ws" "cap \<noteq> []" "list_all cls cap"
  shows "match_at lit cls (lit @ ws @ cap @ rest) \<noteq> None"
proof -
  let ?r = "ws @ cap @ rest"
  have n: "length ws \<le> length (takeWhile is_space ?r)"
    using assms(2) by (simp add: takeWhile_all_append)
  have "takeWhile cls (drop (length ws) ?r) \<noteq> []"
    using assms(3,4) by (cases cap) auto
  moreover have "1 \<le> length ws" using assms(1) by (cases ws) auto
  ultimately have "backtrack cls ?r (length (takeWhile is_space ?r)) \<noteq> None"
    using n backtrack_None[of cls ?r "length (takeWhile is_space ?r)"] by blast
  then show ?thesis by (simp add: match_at_def Let_def)
qed

lemma re_search_unfold:
  "re_search lit cls s =
     (case match_at lit cls s of Some cap \<Rightarrow> Some cap
      | None \<Rightarrow> (case s of [] \<Rightarrow> None | c # t \<Rightarrow> re_search lit cls t))"
  by (cases s) (auto split: option.splits)

lemma re_search_sound: "re_search lit cls s = Some cap \<Longrightarrow> captured lit cls s cap"
proof (induction s)
  case Nil
  then have "match_at lit cls [] = Some cap" by simp
  from match_at_sound[OF this] show ?case unfolding captured_def by (metis append_Nil)
next
  case (Cons c s)
  show ?case
  proof (cases "match_at lit cls (c # s)")
    case None
    with Cons.prems have "re_search lit cls s = Some cap" by simp
    from Cons.IH[OF this] obtain pre ws rest where
      "s = pre @ lit @ ws @ cap @ rest" "ws \<noteq> []" "list_all is_space ws" "cap \<noteq> []" "list_all cls cap"
      unfolding captured_def by blast
    then have "c # s = (c # pre) @ lit @ ws @ cap @ rest" by simp
    then show ?thesis unfolding captured_def
      using \<open>ws \<noteq> []\<close> \<open>list_all is_space ws\<close> \<open>cap \<noteq> []\<close> \<open>list_all cls cap\<close> by blast
  next
    case (Some a)
    with Cons.prems have "match_at lit cls (c # s) = Some cap" by simp
    from match_at_sound[OF this] show ?thesis unfolding captured_def by (metis append_Nil)
  qed
qed

lemma re_search_complete_aux:
  assumes "ws \<noteq> []" "list_all is_space ws" "cap \<noteq> []" "list_all cls cap"
  shows "re_search lit cls (pre @ lit @ ws @ cap @ rest) \<noteq> None"
proof (induction pre)
  case Nil
  from match_at_complete[OF assms, of lit rest] show ?case
    by (subst re_search_unfold) (auto split: option.splits)
next
  case (Cons c pre)
  then show ?case by (auto split: option.splits)
qed

lemma re_search_complete: "has_match lit cls s \<Longrightarrow> re_search lit cls s \<noteq> None"
  unfolding has_match_def captured_def using re_search_complete_aux by blast

lemma re_search_None_iff: "re_search lit cls s = None \<longleftrightarrow> \<not> has_match lit cls s"
  using re_search_complete re_search_sound unfolding has_match_def
  by (metis not_Some_eq)

text \<open>
  The search returns the leftmost greedy match, and the text has only one.
\<close>

lemma backtrack_Some_max:
  "backtrack cls r n = Some cap \<Longrightarrow>
     \<exists>k. 1 \<le> k \<and> k \<le> n \<and> cap = takeWhile cls (drop k r) \<and> cap \<noteq> [] \<and>
         (\<forall>j. k < j \<and> j \<le> n \<longrightarrow> takeWhile cls (drop j r) = [])"
proof (induction n)
  case 0
  then show ?case by simp
next
  case (Suc n)
  show ?case
  proof (cases "takeWhile cls (drop (Suc n) r) = []")
    case True
    with Suc.prems have "backtrack cls r n = Some cap" by (simp add: Let_def)
    from Suc.IH[OF this] obtain k where k: "1 \<le> k" "k \<le> n" "cap = takeWhile cls (drop k r)"
      "cap \<noteq> []" "\<forall>j. k < j \<and> j \<le> n \<longrightarrow> takeWhile cls (drop j r) = []"
      by blast
    have "\<forall>j. k < j \<and> j \<le> Suc n \<longrightarrow> takeWhile cls (drop j r) = []"
      using k(5) True by (metis le_Suc_eq)
    with k(1,2,3,4) show ?thesis by (intro exI[of _ k]) simp
  next
    case False
    with Suc.prems have "cap = takeWhile cls (drop (Suc n) r)" by (simp add: Let_def)
    with False show ?thesis by (intro exI[of _ "Suc n"]) simp
  qed
qed

lemma match_at_greedy:
  assumes "match_at lit cls s = Some cap"
  shows "greedy_at lit cls s cap"
proof -
  define r where "r = drop (length lit) s"
  define n where "n = length (takeWhile is_space r)"
  from assms have lit: "take (length lit) s = lit" and bt: "backtrack cls r n = Some cap"
    by (auto simp: match_at_def r_def n_def Let_def split: if_splits)
  from backtrack_Some_max[OF bt] obtain k where k: "1 \<le> k" "k \<le> n"
    "cap = takeWhile cls (drop k r)" "cap \<noteq> []"
    "\<forall>j. k < j \<and> j \<le> n \<longrightarrow> takeWhile cls (drop j r) = []"
    by blast
  have s: "s = lit @ r" using lit unfolding r_def by (metis append_take_drop_id)
  from match_at_sound[OF assms] obtain ws0 rest0 where
    "s = lit @ ws0 @ cap @ rest0" by blast
  have nr: "n \<le> length r" unfolding n_def by (rule length_takeWhile_le)
  define ws where "ws = take k r"
  define rest where "rest = dropWhile cls (drop k r)"
  have lws: "length ws = k" using k(2) nr by (simp add: ws_def)
  have "take k r = take k (takeWhile is_space r @ dropWhile is_space r)" by simp
  also have "\<dots> = take k (takeWhile is_space r)"
    using k(2) by (simp add: n_def del: takeWhile_dropWhile_id)
  finally have tk: "ws = take k (takeWhile is_space r)" by (simp add: ws_def)
  have sp: "list_all is_space ws"
    unfolding tk using list_all_takeWhile[of is_space r]
    by (metis append_take_drop_id list_all_append)
  have ne: "ws \<noteq> []" using lws k(1) by auto
  have rr: "r = ws @ cap @ rest" unfolding ws_def rest_def k(3) by simp
  have cc: "list_all cls cap" unfolding k(3) by (rule list_all_takeWhile)
  have "s = lit @ ws @ cap @ rest" using s rr by simp
  with sp ne k(4) cc have rd: "reading lit cls s ws cap rest"
    unfolding reading_def by blast
  have mx: "length ws' < length ws \<or> (length ws' = length ws \<and> length cap' \<le> length cap)"
    if "reading lit cls s ws' cap' rest'" for ws' cap' rest'
  proof -
    from that s have r': "r = ws' @ cap' @ rest'" by (simp add: reading_def)
    from that have w': "ws' \<noteq> []" "list_all is_space ws'" "cap' \<noteq> []" "list_all cls cap'"
      by (simp_all add: reading_def)
    have 2: "length ws' \<le> n" unfolding n_def r' using w'(2) by (simp add: takeWhile_all_append)
    have 3: "takeWhile cls (drop (length ws') r) = cap' @ takeWhile cls rest'"
      unfolding r' using w'(4) by (simp add: takeWhile_all_append)
    with w'(3) have "takeWhile cls (drop (length ws') r) \<noteq> []" by simp
    with k(5) 2 have "\<not> k < length ws'" by blast
    then consider "length ws' < k" | "length ws' = k" by linarith
    then show ?thesis
    proof cases
      case 1
      then show ?thesis using lws by simp
    next
      case 2
      then have "cap = cap' @ takeWhile cls rest'" using k(3) 3 by simp
      then show ?thesis using 2 lws by simp
    qed
  qed
  show ?thesis unfolding greedy_at_def using rd mx by blast
qed

lemma match_at_None:
  assumes "match_at lit cls s = None"
  shows "\<not> matches_at lit cls s"
proof
  assume "matches_at lit cls s"
  then obtain ws cap rest where "s = lit @ ws @ cap @ rest" "ws \<noteq> []" "list_all is_space ws"
    "cap \<noteq> []" "list_all cls cap"
    unfolding matches_at_def reading_def by blast
  with match_at_complete[of ws cap cls lit rest] assms show False by simp
qed

lemma greedy_at_matches: "greedy_at lit cls s cap \<Longrightarrow> matches_at lit cls s"
  by (auto simp: greedy_at_def matches_at_def)

lemma re_search_group: "re_search lit cls text = Some cap \<Longrightarrow> re_group lit cls text cap"
proof (induction "text")
  case Nil
  then have "match_at lit cls [] = Some cap" by simp
  from match_at_greedy[OF this] show ?case
    unfolding re_group_def by (intro exI[of _ "[]"]) simp
next
  case (Cons c t)
  show ?case
  proof (cases "match_at lit cls (c # t)")
    case (Some a)
    with Cons.prems have "match_at lit cls (c # t) = Some cap" by simp
    from match_at_greedy[OF this] show ?thesis
      unfolding re_group_def by (intro exI[of _ "[]"] exI[of _ "c # t"]) simp
  next
    case None
    with Cons.prems have "re_search lit cls t = Some cap" by simp
    from Cons.IH[OF this] obtain pre s where ps: "t = pre @ s" "greedy_at lit cls s cap"
      and lm: "\<forall>pre' s'. t = pre' @ s' \<and> length pre' < length pre \<longrightarrow> \<not> matches_at lit cls s'"
      unfolding re_group_def by blast
    have "\<not> matches_at lit cls s'" if "c # t = pre' @ s'" "length pre' < length (c # pre)"
      for pre' s'
    proof (cases pre')
      case Nil
      with that have "s' = c # t" by simp
      with match_at_None[OF None] show ?thesis by simp
    next
      case (Cons a p)
      with that have "t = p @ s'" "length p < length pre" by simp_all
      with lm show ?thesis by blast
    qed
    with ps show ?thesis
      unfolding re_group_def by (intro exI[of _ "c # pre"] exI[of _ s]) auto
  qed
qed

lemma greedy_at_unique:
  assumes "greedy_at lit cls s c1" and "greedy_at lit cls s c2"
  shows "c1 = c2"
proof -
  from assms(1) obtain ws1 rest1 where r1: "reading lit cls s ws1 c1 rest1"
    and m1: "\<forall>ws' cap' rest'. reading lit cls s ws' cap' rest' \<longrightarrow>
           length ws' < length ws1 \<or> (length ws' = length ws1 \<and> length cap' \<le> length c1)"
    unfolding greedy_at_def by blast
  from assms(2) obtain ws2 rest2 where r2: "reading lit cls s ws2 c2 rest2"
    and m2: "\<forall>ws' cap' rest'. reading lit cls s ws' cap' rest' \<longrightarrow>
           length ws' < length ws2 \<or> (length ws' = length ws2 \<and> length cap' \<le> length c2)"
    unfolding greedy_at_def by blast
  from m1 r2 have a: "length ws2 < length ws1 \<or> (length ws2 = length ws1 \<and> length c2 \<le> length c1)"
    by blast
  from m2 r1 have b: "length ws1 < length ws2 \<or> (length ws1 = length ws2 \<and> length c1 \<le> length c2)"
    by blast
  from a b have l: "length ws1 = length ws2" "length c1 = length c2" by linarith+
  from r1 r2 have "ws1 @ c1 @ rest1 = ws2 @ c2 @ rest2" by (simp add: reading_def)
  with l show ?thesis by simp
qed

lemma re_group_unique:
  assumes "re_group lit cls text c1" and "re_group lit cls text c2"
  shows "c1 = c2"
proof -
  from assms(1) obtain pre1 s1 where p1: "text = pre1 @ s1" and g1: "greedy_at lit cls s1 c1"
    and l1: "\<forall>pre' s'. text = pre' @ s' \<and> length pre' < length pre1 \<longrightarrow> \<not> matches_at lit cls s'"
    unfolding re_group_def by blast
  from assms(2) obtain pre2 s2 where p2: "text = pre2 @ s2" and g2: "greedy_at lit cls s2 c2"
    and l2: "\<forall>pre' s'. text = pre' @ s' \<and> length pre' < length pre2 \<longrightarrow> \<not> matches_at lit cls s'"
    unfolding re_group_def by blast
  have "\<not> length pre1 < length pre2" using l2 p1 greedy_at_matches[OF g1] by blast
  moreover have "\<not> length pre2 < length pre1" using l1 p2 greedy_at_matches[OF g2] by blast
  ultimately have "length pre1 = length pre2" by linarith
  with p1 p2 have "s1 = s2" by simp
  with g1 g2 show ?thesis by (simp add: greedy_at_unique)
qed

lemma re_group_has_match: "re_group lit cls text cap \<Longrightarrow> has_match lit cls text"
  unfolding re_group_def greedy_at_def reading_def has_match_def captured_def by blast

lemma re_group_iff: "re_group lit cls text cap \<longleftrightarrow> re_search lit cls text = Some cap"
proof
  assume g: "re_group lit cls text cap"
  from re_search_complete[OF re_group_has_match[OF g]] obtain c where
    c: "re_search lit cls text = Some c" by blast
  from re_group_unique[OF re_search_group[OF c] g] c show "re_search lit cls text = Some cap"
    by simp
next
  assume "re_search lit cls text = Some cap"
  then show "re_group lit cls text cap" by (rule re_search_group)
qed

lemma count_fits_code:
  "count_fits text \<longleftrightarrow>
     (\<forall>ds. re_search ''number of clients:'' is_digit text = Some ds \<longrightarrow>
        length ds \<le> int_max_str_digits)"
  by (simp add: count_fits_def re_group_iff)

text \<open>
  The captured digits: \<open>int\<close> fails on them only beyond the limit, and its value is
  the decimal value.
\<close>

lemma decimal_snoc: "decimal (ds @ [d]) = 10 * decimal ds + digit_val d"
proof -
  have "(\<Sum>i<length ds. digit_val ((ds @ [d]) ! i) * 10 ^ (length (ds @ [d]) - Suc i)) =
        (\<Sum>i<length ds. 10 * (digit_val (ds ! i) * 10 ^ (length ds - Suc i)))"
  proof (rule sum.cong)
    fix i assume "i \<in> {..<length ds}"
    then have i: "i < length ds" by simp
    then have "length (ds @ [d]) - Suc i = Suc (length ds - Suc i)" by simp
    with i show "digit_val ((ds @ [d]) ! i) * 10 ^ (length (ds @ [d]) - Suc i) =
                 10 * (digit_val (ds ! i) * 10 ^ (length ds - Suc i))"
      by (simp add: nth_append)
  qed simp
  then show ?thesis
    by (simp add: decimal_def sum_distrib_left)
qed

lemma foldl_decimal: "foldl (\<lambda>a c. 10 * a + digit_val c) 0 ds = decimal ds"
proof (induction ds rule: rev_induct)
  case Nil
  show ?case by (simp add: decimal_def)
next
  case (snoc d ds)
  then show ?case by (simp add: decimal_snoc)
qed

lemma digit_val_nonneg: "is_digit c \<Longrightarrow> 0 \<le> digit_val c"
  by (simp add: is_digit_def digit_val_def Let_def)

lemma decimal_nonneg: "list_all is_digit ds \<Longrightarrow> 0 \<le> decimal ds"
  unfolding decimal_def
  by (intro sum_nonneg mult_nonneg_nonneg) (auto simp: list_all_length digit_val_nonneg)

lemma captured_class: "captured lit cls text cap \<Longrightarrow> cap \<noteq> [] \<and> list_all cls cap"
  by (auto simp: captured_def)

lemma py_int_captured:
  "captured lit is_digit text ds \<Longrightarrow>
     py_int ds = (if length ds \<le> int_max_str_digits then Some (decimal ds) else None)"
  using captured_class[of lit is_digit _ ds] by (simp add: py_int_def foldl_decimal)

text \<open>
  The transformed SSL description holds no space and is unchanged by another \<open>lower()\<close>.
\<close>

lemma lower_char_idem: "lower_char (lower_char c) = lower_char c"
proof -
  have "of_char (char_of (of_char c + 32 :: nat) :: char) = (of_char c + 32 :: nat)"
    if "(of_char c :: nat) \<le> 222"
    using that by (simp add: of_char_of)
  then show ?thesis
    by (auto simp: lower_char_def Let_def)
qed

lemma lower_char_underscore: "lower_char CHR ''_'' = CHR ''_''"
  by (simp add: lower_char_def)

lemma py_lower_transform: "py_lower (replace_space (py_lower s)) = replace_space (py_lower s)"
  by (induction s) (auto simp: py_lower_def replace_space_def lower_char_idem lower_char_underscore)

lemma no_space_transform: "CHR '' '' \<notin> set (replace_space s)"
  by (auto simp: replace_space_def)

text \<open>
  The parser in closed form: it raises exactly when the count pattern captures more
  digits than \<open>int\<close> converts.
\<close>

lemma parse_result:
  "parse_status_command_output text =
     (case re_search ''number of clients:'' is_digit text of
        None \<Rightarrow> Inr \<lparr>redistribution_status = re_search ''Redistribution service:'' is_word text,
                     ssl_config = map_option (\<lambda>s. replace_space (py_lower s))
                                    (re_search ''SSL config:'' is_dot text),
                     number_of_clients = None\<rparr>
      | Some ds \<Rightarrow>
          if length ds \<le> int_max_str_digits
          then Inr \<lparr>redistribution_status = re_search ''Redistribution service:'' is_word text,
                    ssl_config = map_option (\<lambda>s. replace_space (py_lower s))
                                   (re_search ''SSL config:'' is_dot text),
                    number_of_clients = Some (decimal ds)\<rparr>
          else Inl ValueError)"
proof (cases "re_search ''number of clients:'' is_digit text")
  case None
  then show ?thesis
    by (simp add: parse_status_command_output_def Let_def map_option_case)
next
  case (Some ds)
  from re_search_sound[OF Some]
  have "py_int ds = (if length ds \<le> int_max_str_digits then Some (decimal ds) else None)"
    by (rule py_int_captured)
  with Some show ?thesis
    by (simp add: parse_status_command_output_def Let_def map_option_case)
qed

lemma parse_count_fits:
  "count_fits text \<Longrightarrow>
     parse_status_command_output text =
       Inr \<lparr>redistribution_status = re_search ''Redistribution service:'' is_word text,
            ssl_config = map_option (\<lambda>s. replace_space (py_lower s))
                           (re_search ''SSL config:'' is_dot text),
            number_of_clients = map_option decimal (re_search ''number of clients:'' is_digit text)\<rparr>"
  by (cases "re_search ''number of clients:'' is_digit text")
     (simp_all add: parse_result count_fits_code)

lemma parse_count_too_long:
  "\<not> count_fits text \<Longrightarrow> parse_status_command_output text = Inl ValueError"
  by (cases "re_search ''number of clients:'' is_digit text")
     (auto simp: parse_result count_fits_code)

lemma has_match_code: "has_match lit cls text \<longleftrightarrow> re_search lit cls text \<noteq> None"
  by (simp add: re_search_None_iff)

text \<open>The count of 4301 digits is what the pattern captures in the two long texts.\<close>

lemma long_count_digits:
  "long_count \<noteq> []" "takeWhile is_space long_count = []"
  "takeWhile is_digit long_count = long_count" "length long_count = 4301"
  by (simp_all add: long_count_def is_space_def is_digit_def)

lemma long_count_captured:
  "re_search ''number of clients:'' is_digit long_count_text = Some long_count"
  by (simp add: long_count_text_def match_at_def is_space_def long_count_digits)

lemma long_status_captured:
  "re_search ''number of clients:'' is_digit long_status_text = Some long_count"
  by (simp add: long_status_text_def match_at_def is_space_def long_count_digits)

lemma long_count_length: "\<not> length long_count \<le> int_max_str_digits"
  by (simp add: long_count_digits int_max_str_digits_def)

lemma status_example_parsed:
  "parse_status_command_output status_example =
     Inr \<lparr>redistribution_status = Some ''up'', ssl_config = Some ''default_certificates'',
          number_of_clients = Some 3\<rparr>"
  by code_simp

lemma status_example_count:
  "re_search ''number of clients:'' is_digit status_example = Some ''3''"
  by code_simp

lemma status_example_fits: "count_fits status_example"
  by (simp add: count_fits_code status_example_count int_max_str_digits_def)

lemma long_status_too_long: "\<not> count_fits long_status_text"
  by (simp add: count_fits_code long_status_captured long_count_length)

text \<open>
  The two properties of the parser of the script, for texts of code points below 256.
\<close>

lemma latin1_all_three_fields:
  assumes "has_match ''Redistribution service:'' is_word text"
    and "has_match ''SSL config:'' is_dot text"
    and "has_match ''number of clients:'' is_digit text"
    and "count_fits text"
  shows "\<exists>status ssl clients.
           parse_status_command_output text =
             Inr \<lparr>redistribution_status = Some status,
                  ssl_config = Some (replace_space (py_lower ssl)),
                  number_of_clients = Some (decimal clients)\<rparr> \<and>
           re_group ''Redistribution service:'' is_word text status \<and>
           re_group ''SSL config:'' is_dot text ssl \<and>
           re_group ''number of clients:'' is_digit text clients \<and>
           (\<forall>c. re_group ''Redistribution service:'' is_word text c \<longrightarrow> c = status) \<and>
           (\<forall>c. re_group ''SSL config:'' is_dot text c \<longrightarrow> c = ssl) \<and>
           (\<forall>c. re_group ''number of clients:'' is_digit text c \<longrightarrow> c = clients) \<and>
           CHR '' '' \<notin> set (replace_space (py_lower ssl)) \<and>
           py_lower (replace_space (py_lower ssl)) = replace_space (py_lower ssl) \<and>
           0 \<le> decimal clients"
proof -
  from assms(1) obtain status where 1: "re_search ''Redistribution service:'' is_word text = Some status"
    using re_search_complete by blast
  from assms(2) obtain ssl where 2: "re_search ''SSL config:'' is_dot text = Some ssl"
    using re_search_complete by blast
  from assms(3) obtain clients where 3: "re_search ''number of clients:'' is_digit text = Some clients"
    using re_search_complete by blast
  have "captured ''number of clients:'' is_digit text clients" by (rule re_search_sound[OF 3])
  then have n: "0 \<le> decimal clients" using captured_class decimal_nonneg by blast
  have p: "parse_status_command_output text =
             Inr \<lparr>redistribution_status = Some status,
                  ssl_config = Some (replace_space (py_lower ssl)),
                  number_of_clients = Some (decimal clients)\<rparr>"
    by (simp add: parse_count_fits[OF assms(4)] 1 2 3)
  have u: "\<forall>c. re_group ''Redistribution service:'' is_word text c \<longrightarrow> c = status"
    "\<forall>c. re_group ''SSL config:'' is_dot text c \<longrightarrow> c = ssl"
    "\<forall>c. re_group ''number of clients:'' is_digit text c \<longrightarrow> c = clients"
    by (simp_all add: re_group_iff 1 2 3)
  from p n u re_search_group[OF 1] re_search_group[OF 2] re_search_group[OF 3]
    no_space_transform[of "py_lower ssl"] py_lower_transform[of ssl]
  show ?thesis by blast
qed

lemma latin1_raises_only_on_long_count:
  "if count_fits text
   then \<exists>p. parse_status_command_output text = Inr p \<and>
       (redistribution_status p = None \<longleftrightarrow> \<not> has_match ''Redistribution service:'' is_word text) \<and>
       (ssl_config p = None \<longleftrightarrow> \<not> has_match ''SSL config:'' is_dot text) \<and>
       (number_of_clients p = None \<longleftrightarrow> \<not> has_match ''number of clients:'' is_digit text)
   else parse_status_command_output text = Inl ValueError"
proof (cases "count_fits text")
  case True
  then show ?thesis
    by (simp add: parse_count_fits re_search_None_iff[symmetric])
next
  case False
  then show ?thesis by (simp add: parse_count_too_long)
qed

section \<open>The parser over any character tables\<close>

text \<open>
  The search over the tables: it finds a match exactly when the text contains the
  pattern, and what it returns is the group of the leftmost greedy match, of which there
  is only one.
\<close>

lemma u_backtrack_None:
  "u_backtrack cls r n = None \<longleftrightarrow> (\<forall>k. 1 \<le> k \<and> k \<le> n \<longrightarrow> takeWhile cls (drop k r) = [])"
proof (induction n)
  case 0
  show ?case by simp
next
  case (Suc n)
  have "(\<forall>k. 1 \<le> k \<and> k \<le> Suc n \<longrightarrow> takeWhile cls (drop k r) = []) \<longleftrightarrow>
        takeWhile cls (drop (Suc n) r) = [] \<and> (\<forall>k. 1 \<le> k \<and> k \<le> n \<longrightarrow> takeWhile cls (drop k r) = [])"
    by (metis le_Suc_eq le_SucI le_add1 plus_1_eq_Suc)
  with Suc show ?case by (simp add: Let_def)
qed

lemma u_backtrack_Some_max:
  "u_backtrack cls r n = Some cap \<Longrightarrow>
     \<exists>k. 1 \<le> k \<and> k \<le> n \<and> cap = takeWhile cls (drop k r) \<and> cap \<noteq> [] \<and>
         (\<forall>j. k < j \<and> j \<le> n \<longrightarrow> takeWhile cls (drop j r) = [])"
proof (induction n)
  case 0
  then show ?case by simp
next
  case (Suc n)
  show ?case
  proof (cases "takeWhile cls (drop (Suc n) r) = []")
    case True
    with Suc.prems have "u_backtrack cls r n = Some cap" by (simp add: Let_def)
    from Suc.IH[OF this] obtain k where k: "1 \<le> k" "k \<le> n" "cap = takeWhile cls (drop k r)"
      "cap \<noteq> []" "\<forall>j. k < j \<and> j \<le> n \<longrightarrow> takeWhile cls (drop j r) = []"
      by blast
    have "\<forall>j. k < j \<and> j \<le> Suc n \<longrightarrow> takeWhile cls (drop j r) = []"
      using k(5) True by (metis le_Suc_eq)
    with k(1,2,3,4) show ?thesis by (intro exI[of _ k]) simp
  next
    case False
    with Suc.prems have "cap = takeWhile cls (drop (Suc n) r)" by (simp add: Let_def)
    with False show ?thesis by (intro exI[of _ "Suc n"]) simp
  qed
qed

lemma u_match_at_complete:
  assumes "u_reading U lit cls s ws cap rest"
  shows "u_match_at U lit cls s \<noteq> None"
proof -
  from assms have s: "s = lit @ ws @ cap @ rest" and w: "ws \<noteq> []" "list_all (u_space U) ws"
    and c: "cap \<noteq> []" "list_all cls cap"
    by (simp_all add: u_reading_def)
  let ?r = "ws @ cap @ rest"
  have n: "length ws \<le> length (takeWhile (u_space U) ?r)"
    using w(2) by (simp add: takeWhile_all_append)
  have "takeWhile cls (drop (length ws) ?r) \<noteq> []"
    using c by (cases cap) auto
  moreover have "1 \<le> length ws" using w(1) by (cases ws) auto
  ultimately have "u_backtrack cls ?r (length (takeWhile (u_space U) ?r)) \<noteq> None"
    using n u_backtrack_None[of cls ?r "length (takeWhile (u_space U) ?r)"] by blast
  then show ?thesis by (simp add: u_match_at_def Let_def s)
qed

lemma u_match_at_None: "u_match_at U lit cls s = None \<Longrightarrow> \<not> u_matches_at U lit cls s"
  using u_match_at_complete unfolding u_matches_at_def by blast

lemma u_match_at_greedy:
  assumes "u_match_at U lit cls s = Some cap"
  shows "u_greedy_at U lit cls s cap"
proof -
  define r where "r = drop (length lit) s"
  define n where "n = length (takeWhile (u_space U) r)"
  from assms have lit: "take (length lit) s = lit" and bt: "u_backtrack cls r n = Some cap"
    by (auto simp: u_match_at_def r_def n_def Let_def split: if_splits)
  from u_backtrack_Some_max[OF bt] obtain k where k: "1 \<le> k" "k \<le> n"
    "cap = takeWhile cls (drop k r)" "cap \<noteq> []"
    "\<forall>j. k < j \<and> j \<le> n \<longrightarrow> takeWhile cls (drop j r) = []"
    by blast
  have s: "s = lit @ r" using lit unfolding r_def by (metis append_take_drop_id)
  have nr: "n \<le> length r" unfolding n_def by (rule length_takeWhile_le)
  define ws where "ws = take k r"
  define rest where "rest = dropWhile cls (drop k r)"
  have lws: "length ws = k" using k(2) nr by (simp add: ws_def)
  have "take k r = take k (takeWhile (u_space U) r @ dropWhile (u_space U) r)" by simp
  also have "\<dots> = take k (takeWhile (u_space U) r)"
    using k(2) by (simp add: n_def del: takeWhile_dropWhile_id)
  finally have tk: "ws = take k (takeWhile (u_space U) r)" by (simp add: ws_def)
  have sp: "list_all (u_space U) ws"
    unfolding tk using list_all_takeWhile[of "u_space U" r]
    by (metis append_take_drop_id list_all_append)
  have ne: "ws \<noteq> []" using lws k(1) by auto
  have rr: "r = ws @ cap @ rest" unfolding ws_def rest_def k(3) by simp
  have cc: "list_all cls cap" unfolding k(3) by (rule list_all_takeWhile)
  have "s = lit @ ws @ cap @ rest" using s rr by simp
  with sp ne k(4) cc have rd: "u_reading U lit cls s ws cap rest"
    unfolding u_reading_def by blast
  have mx: "length ws' < length ws \<or> (length ws' = length ws \<and> length cap' \<le> length cap)"
    if "u_reading U lit cls s ws' cap' rest'" for ws' cap' rest'
  proof -
    from that s have r': "r = ws' @ cap' @ rest'" by (simp add: u_reading_def)
    from that have w': "ws' \<noteq> []" "list_all (u_space U) ws'" "cap' \<noteq> []" "list_all cls cap'"
      by (simp_all add: u_reading_def)
    have 2: "length ws' \<le> n" unfolding n_def r' using w'(2) by (simp add: takeWhile_all_append)
    have 3: "takeWhile cls (drop (length ws') r) = cap' @ takeWhile cls rest'"
      unfolding r' using w'(4) by (simp add: takeWhile_all_append)
    with w'(3) have "takeWhile cls (drop (length ws') r) \<noteq> []" by simp
    with k(5) 2 have "\<not> k < length ws'" by blast
    then consider "length ws' < k" | "length ws' = k" by linarith
    then show ?thesis
    proof cases
      case 1
      then show ?thesis using lws by simp
    next
      case 2
      then have "cap = cap' @ takeWhile cls rest'" using k(3) 3 by simp
      then show ?thesis using 2 lws by simp
    qed
  qed
  show ?thesis unfolding u_greedy_at_def using rd mx by blast
qed

lemma u_greedy_at_matches: "u_greedy_at U lit cls s cap \<Longrightarrow> u_matches_at U lit cls s"
  by (auto simp: u_greedy_at_def u_matches_at_def)

lemma u_greedy_at_class: "u_greedy_at U lit cls s cap \<Longrightarrow> cap \<noteq> [] \<and> list_all cls cap"
  by (auto simp: u_greedy_at_def u_reading_def)

lemma u_search_group: "u_search U lit cls text = Some cap \<Longrightarrow> u_group U lit cls text cap"
proof (induction "text")
  case Nil
  then have "u_match_at U lit cls [] = Some cap" by simp
  from u_match_at_greedy[OF this] show ?case
    unfolding u_group_def by (intro exI[of _ "[]"]) simp
next
  case (Cons c t)
  show ?case
  proof (cases "u_match_at U lit cls (c # t)")
    case (Some a)
    with Cons.prems have "u_match_at U lit cls (c # t) = Some cap" by simp
    from u_match_at_greedy[OF this] show ?thesis
      unfolding u_group_def by (intro exI[of _ "[]"] exI[of _ "c # t"]) simp
  next
    case None
    with Cons.prems have "u_search U lit cls t = Some cap" by simp
    from Cons.IH[OF this] obtain pre s where ps: "t = pre @ s" "u_greedy_at U lit cls s cap"
      and lm: "\<forall>pre' s'. t = pre' @ s' \<and> length pre' < length pre \<longrightarrow> \<not> u_matches_at U lit cls s'"
      unfolding u_group_def by blast
    have "\<not> u_matches_at U lit cls s'" if "c # t = pre' @ s'" "length pre' < length (c # pre)"
      for pre' s'
    proof (cases pre')
      case Nil
      with that have "s' = c # t" by simp
      with u_match_at_None[OF None] show ?thesis by simp
    next
      case (Cons a p)
      with that have "t = p @ s'" "length p < length pre" by simp_all
      with lm show ?thesis by blast
    qed
    with ps show ?thesis
      unfolding u_group_def by (intro exI[of _ "c # pre"] exI[of _ s]) auto
  qed
qed

lemma u_search_complete_aux:
  "u_matches_at U lit cls s \<Longrightarrow> u_search U lit cls (pre @ s) \<noteq> None"
proof (induction pre)
  case Nil
  then obtain ws cap rest where "u_reading U lit cls s ws cap rest"
    unfolding u_matches_at_def by blast
  from u_match_at_complete[OF this] show ?case
    by (cases s) (auto split: option.splits)
next
  case (Cons c pre)
  then show ?case by (auto split: option.splits)
qed

lemma u_search_complete: "u_has_match U lit cls text \<Longrightarrow> u_search U lit cls text \<noteq> None"
  unfolding u_has_match_def using u_search_complete_aux by blast

lemma u_group_has_match: "u_group U lit cls text cap \<Longrightarrow> u_has_match U lit cls text"
  unfolding u_group_def u_has_match_def using u_greedy_at_matches by blast

lemma u_search_None_iff: "u_search U lit cls text = None \<longleftrightarrow> \<not> u_has_match U lit cls text"
  using u_search_complete u_group_has_match[OF u_search_group]
  by (metis not_Some_eq)

lemma u_greedy_at_unique:
  assumes "u_greedy_at U lit cls s c1" and "u_greedy_at U lit cls s c2"
  shows "c1 = c2"
proof -
  from assms(1) obtain ws1 rest1 where r1: "u_reading U lit cls s ws1 c1 rest1"
    and m1: "\<forall>ws' cap' rest'. u_reading U lit cls s ws' cap' rest' \<longrightarrow>
           length ws' < length ws1 \<or> (length ws' = length ws1 \<and> length cap' \<le> length c1)"
    unfolding u_greedy_at_def by blast
  from assms(2) obtain ws2 rest2 where r2: "u_reading U lit cls s ws2 c2 rest2"
    and m2: "\<forall>ws' cap' rest'. u_reading U lit cls s ws' cap' rest' \<longrightarrow>
           length ws' < length ws2 \<or> (length ws' = length ws2 \<and> length cap' \<le> length c2)"
    unfolding u_greedy_at_def by blast
  from m1 r2 have a: "length ws2 < length ws1 \<or> (length ws2 = length ws1 \<and> length c2 \<le> length c1)"
    by blast
  from m2 r1 have b: "length ws1 < length ws2 \<or> (length ws1 = length ws2 \<and> length c1 \<le> length c2)"
    by blast
  from a b have l: "length ws1 = length ws2" "length c1 = length c2" by linarith+
  from r1 r2 have "ws1 @ c1 @ rest1 = ws2 @ c2 @ rest2" by (simp add: u_reading_def)
  with l show ?thesis by simp
qed

lemma u_group_unique:
  assumes "u_group U lit cls text c1" and "u_group U lit cls text c2"
  shows "c1 = c2"
proof -
  from assms(1) obtain pre1 s1 where p1: "text = pre1 @ s1" and g1: "u_greedy_at U lit cls s1 c1"
    and l1: "\<forall>pre' s'. text = pre' @ s' \<and> length pre' < length pre1 \<longrightarrow> \<not> u_matches_at U lit cls s'"
    unfolding u_group_def by blast
  from assms(2) obtain pre2 s2 where p2: "text = pre2 @ s2" and g2: "u_greedy_at U lit cls s2 c2"
    and l2: "\<forall>pre' s'. text = pre' @ s' \<and> length pre' < length pre2 \<longrightarrow> \<not> u_matches_at U lit cls s'"
    unfolding u_group_def by blast
  have "\<not> length pre1 < length pre2" using l2 p1 u_greedy_at_matches[OF g1] by blast
  moreover have "\<not> length pre2 < length pre1" using l1 p2 u_greedy_at_matches[OF g2] by blast
  ultimately have "length pre1 = length pre2" by linarith
  with p1 p2 have "s1 = s2" by simp
  with g1 g2 show ?thesis by (simp add: u_greedy_at_unique)
qed

lemma u_group_iff: "u_group U lit cls text cap \<longleftrightarrow> u_search U lit cls text = Some cap"
proof
  assume g: "u_group U lit cls text cap"
  from u_search_complete[OF u_group_has_match[OF g]] obtain c where
    c: "u_search U lit cls text = Some c" by blast
  from u_group_unique[OF u_search_group[OF c] g] c show "u_search U lit cls text = Some cap"
    by simp
next
  assume "u_search U lit cls text = Some cap"
  then show "u_group U lit cls text cap" by (rule u_search_group)
qed

lemma u_group_class: "u_group U lit cls text cap \<Longrightarrow> cap \<noteq> [] \<and> list_all cls cap"
  unfolding u_group_def using u_greedy_at_class by blast

lemma u_count_fits_code:
  "u_count_fits U text \<longleftrightarrow>
     (\<forall>ds. u_search U (u_lit U ''number of clients:'') (u_digit U) text = Some ds \<longrightarrow>
        length ds \<le> int_max_str_digits)"
  by (simp add: u_count_fits_def u_group_iff)

text \<open>The value \<open>int\<close> gives is the decimal value of the digits.\<close>

lemma u_decimal_snoc: "u_decimal U (ds @ [d]) = 10 * u_decimal U ds + u_value U d"
proof -
  have "(\<Sum>i<length ds. u_value U ((ds @ [d]) ! i) * 10 ^ (length (ds @ [d]) - Suc i)) =
        (\<Sum>i<length ds. 10 * (u_value U (ds ! i) * 10 ^ (length ds - Suc i)))"
  proof (rule sum.cong)
    fix i assume "i \<in> {..<length ds}"
    then have i: "i < length ds" by simp
    then have "length (ds @ [d]) - Suc i = Suc (length ds - Suc i)" by simp
    with i show "u_value U ((ds @ [d]) ! i) * 10 ^ (length (ds @ [d]) - Suc i) =
                 10 * (u_value U (ds ! i) * 10 ^ (length ds - Suc i))"
      by (simp add: nth_append)
  qed simp
  then show ?thesis
    by (simp add: u_decimal_def sum_distrib_left)
qed

lemma u_foldl_decimal: "foldl (\<lambda>a c. 10 * a + u_value U c) 0 ds = u_decimal U ds"
proof (induction ds rule: rev_induct)
  case Nil
  show ?case by (simp add: u_decimal_def)
next
  case (snoc d ds)
  then show ?case by (simp add: u_decimal_snoc)
qed

lemma u_decimal_nonneg:
  "list_all (u_digit U) ds \<Longrightarrow> (\<And>c. u_digit U c \<Longrightarrow> 0 \<le> u_value U c) \<Longrightarrow> 0 \<le> u_decimal U ds"
  unfolding u_decimal_def
  by (intro sum_nonneg mult_nonneg_nonneg) (auto simp: list_all_length)

lemma u_no_space_transform:
  "u_chr U CHR ''_'' \<noteq> u_chr U CHR '' '' \<Longrightarrow> u_chr U CHR '' '' \<notin> set (u_replace_space U s)"
  by (auto simp: u_replace_space_def)

text \<open>
  The parser over the tables in closed form: it raises exactly when the count pattern
  captures more digits than \<open>int\<close> converts.
\<close>

lemma u_parse_result:
  "u_parse U text =
     (case u_search U (u_lit U ''number of clients:'') (u_digit U) text of
        None \<Rightarrow>
          Inr \<lparr>u_redistribution_status =
                 u_search U (u_lit U ''Redistribution service:'') (u_word U) text,
               u_ssl_config = map_option (\<lambda>s. u_replace_space U (u_lower U s))
                                (u_search U (u_lit U ''SSL config:'') (u_dot U) text),
               u_number_of_clients = None\<rparr>
      | Some ds \<Rightarrow>
          if length ds \<le> int_max_str_digits
          then Inr \<lparr>u_redistribution_status =
                      u_search U (u_lit U ''Redistribution service:'') (u_word U) text,
                    u_ssl_config = map_option (\<lambda>s. u_replace_space U (u_lower U s))
                                     (u_search U (u_lit U ''SSL config:'') (u_dot U) text),
                    u_number_of_clients = Some (u_decimal U ds)\<rparr>
          else Inl ValueError)"
proof (cases "u_search U (u_lit U ''number of clients:'') (u_digit U) text")
  case None
  then show ?thesis
    by (simp add: u_parse_def Let_def map_option_case)
next
  case (Some ds)
  from u_group_class[OF u_search_group[OF Some]]
  have "u_int U ds = (if length ds \<le> int_max_str_digits then Some (u_decimal U ds) else None)"
    by (simp add: u_int_def u_foldl_decimal)
  with Some show ?thesis
    by (simp add: u_parse_def Let_def map_option_case)
qed

lemma u_parse_count_fits:
  "u_count_fits U text \<Longrightarrow>
     u_parse U text =
       Inr \<lparr>u_redistribution_status =
              u_search U (u_lit U ''Redistribution service:'') (u_word U) text,
            u_ssl_config = map_option (\<lambda>s. u_replace_space U (u_lower U s))
                             (u_search U (u_lit U ''SSL config:'') (u_dot U) text),
            u_number_of_clients =
              map_option (u_decimal U) (u_search U (u_lit U ''number of clients:'') (u_digit U) text)\<rparr>"
  by (cases "u_search U (u_lit U ''number of clients:'') (u_digit U) text")
     (simp_all add: u_parse_result u_count_fits_code)

lemma u_parse_count_too_long:
  "\<not> u_count_fits U text \<Longrightarrow> u_parse U text = Inl ValueError"
  by (cases "u_search U (u_lit U ''number of clients:'') (u_digit U) text")
     (auto simp: u_parse_result u_count_fits_code)

text \<open>
  Over \<open>latin1\<close> the parser over the tables is the parser of the script, and the notions
  are those used for it.
\<close>

lemma latin1_backtrack: "u_backtrack cls r n = backtrack cls r n"
  by (induction n) (simp_all add: Let_def)

lemma latin1_match_at: "u_match_at latin1 lit cls s = match_at lit cls s"
  by (simp add: u_match_at_def match_at_def latin1_def latin1_backtrack)

lemma latin1_search: "u_search latin1 lit cls s = re_search lit cls s"
  by (induction s) (simp_all add: latin1_match_at split: option.splits)

lemma latin1_lit: "u_lit latin1 s = s"
  by (simp add: u_lit_def latin1_def)

lemma latin1_classes:
  "u_word latin1 = is_word" "u_digit latin1 = is_digit" "u_dot latin1 = is_dot"
  "u_lower latin1 = py_lower" "u_replace_space latin1 = replace_space"
  "u_value latin1 = digit_val"
  by (auto simp: latin1_def u_dot_def is_dot_def u_replace_space_def replace_space_def fun_eq_iff)

lemma latin1_int: "u_int latin1 s = py_int s"
  by (simp add: u_int_def py_int_def latin1_classes)

lemma latin1_parse:
  "parse_status_command_output text =
     (case u_parse latin1 text of Inl e \<Rightarrow> Inl e | Inr p \<Rightarrow> Inr (of_latin1 p))"
  by (simp add: parse_status_command_output_def u_parse_def latin1_search latin1_lit
      latin1_classes latin1_int of_latin1_def Let_def split: option.splits)

lemma latin1_has_match: "u_has_match latin1 lit cls text \<longleftrightarrow> has_match lit cls text"
  using u_search_None_iff[of latin1 lit cls "text"] re_search_None_iff[of lit cls "text"]
  by (simp add: latin1_search)

lemma latin1_group: "u_group latin1 lit cls text cap \<longleftrightarrow> re_group lit cls text cap"
  by (simp add: u_group_iff re_group_iff latin1_search)

lemma latin1_count_fits: "u_count_fits latin1 text \<longleftrightarrow> count_fits text"
  by (simp add: u_count_fits_code count_fits_code latin1_search latin1_lit latin1_classes)

section \<open>The two properties of the parser\<close>

lemma u_all_three_fields:
  assumes "u_has_match U (u_lit U ''Redistribution service:'') (u_word U) text"
    and "u_has_match U (u_lit U ''SSL config:'') (u_dot U) text"
    and "u_has_match U (u_lit U ''number of clients:'') (u_digit U) text"
    and "u_count_fits U text"
  shows "\<exists>status ssl clients.
           u_parse U text =
             Inr \<lparr>u_redistribution_status = Some status,
                  u_ssl_config = Some (u_replace_space U (u_lower U ssl)),
                  u_number_of_clients = Some (u_decimal U clients)\<rparr> \<and>
           u_group U (u_lit U ''Redistribution service:'') (u_word U) text status \<and>
           u_group U (u_lit U ''SSL config:'') (u_dot U) text ssl \<and>
           u_group U (u_lit U ''number of clients:'') (u_digit U) text clients \<and>
           (\<forall>c. u_group U (u_lit U ''Redistribution service:'') (u_word U) text c \<longrightarrow> c = status) \<and>
           (\<forall>c. u_group U (u_lit U ''SSL config:'') (u_dot U) text c \<longrightarrow> c = ssl) \<and>
           (\<forall>c. u_group U (u_lit U ''number of clients:'') (u_digit U) text c \<longrightarrow> c = clients) \<and>
           (u_chr U CHR ''_'' \<noteq> u_chr U CHR '' '' \<longrightarrow>
              u_chr U CHR '' '' \<notin> set (u_replace_space U (u_lower U ssl))) \<and>
           ((\<forall>c. u_digit U c \<longrightarrow> 0 \<le> u_value U c) \<longrightarrow> 0 \<le> u_decimal U clients)"
proof -
  from assms(1) obtain status where
    1: "u_search U (u_lit U ''Redistribution service:'') (u_word U) text = Some status"
    using u_search_complete by blast
  from assms(2) obtain ssl where
    2: "u_search U (u_lit U ''SSL config:'') (u_dot U) text = Some ssl"
    using u_search_complete by blast
  from assms(3) obtain clients where
    3: "u_search U (u_lit U ''number of clients:'') (u_digit U) text = Some clients"
    using u_search_complete by blast
  have "list_all (u_digit U) clients"
    using u_group_class[OF u_search_group[OF 3]] by simp
  then have n: "(\<forall>c. u_digit U c \<longrightarrow> 0 \<le> u_value U c) \<longrightarrow> 0 \<le> u_decimal U clients"
    using u_decimal_nonneg[of U clients] by blast
  have p: "u_parse U text =
             Inr \<lparr>u_redistribution_status = Some status,
                  u_ssl_config = Some (u_replace_space U (u_lower U ssl)),
                  u_number_of_clients = Some (u_decimal U clients)\<rparr>"
    by (simp add: u_parse_count_fits[OF assms(4)] 1 2 3)
  have u: "\<forall>c. u_group U (u_lit U ''Redistribution service:'') (u_word U) text c \<longrightarrow> c = status"
    "\<forall>c. u_group U (u_lit U ''SSL config:'') (u_dot U) text c \<longrightarrow> c = ssl"
    "\<forall>c. u_group U (u_lit U ''number of clients:'') (u_digit U) text c \<longrightarrow> c = clients"
    by (simp_all add: u_group_iff 1 2 3)
  have s: "u_chr U CHR ''_'' \<noteq> u_chr U CHR '' '' \<longrightarrow>
              u_chr U CHR '' '' \<notin> set (u_replace_space U (u_lower U ssl))"
    using u_no_space_transform by blast
  from p n u s u_search_group[OF 1] u_search_group[OF 2] u_search_group[OF 3]
  show ?thesis by blast
qed

lemma u_raises_only_on_long_count:
  "if u_count_fits U text
   then \<exists>p. u_parse U text = Inr p \<and>
       (u_redistribution_status p = None \<longleftrightarrow>
          \<not> u_has_match U (u_lit U ''Redistribution service:'') (u_word U) text) \<and>
       (u_ssl_config p = None \<longleftrightarrow> \<not> u_has_match U (u_lit U ''SSL config:'') (u_dot U) text) \<and>
       (u_number_of_clients p = None \<longleftrightarrow>
          \<not> u_has_match U (u_lit U ''number of clients:'') (u_digit U) text)
   else u_parse U text = Inl ValueError"
proof (cases "u_count_fits U text")
  case True
  then show ?thesis
    by (simp add: u_parse_count_fits u_search_None_iff[symmetric])
next
  case False
  then show ?thesis by (simp add: u_parse_count_too_long)
qed

text \<open>
  C7, as stated, fails. The text holds the three lines of the example, with a count of
  4301 digits: all three patterns occur in it, and \<open>int\<close> in line 104 raises
  \<open>ValueError\<close>, so that no record is returned.
\<close>

theorem long_count_raises_with_all_fields:
  "has_match ''Redistribution service:'' is_word long_status_text \<and>
   has_match ''SSL config:'' is_dot long_status_text \<and>
   has_match ''number of clients:'' is_digit long_status_text \<and>
   parse_status_command_output long_status_text = Inl ValueError"
proof -
  have 1: "has_match ''Redistribution service:'' is_word long_status_text"
    unfolding has_match_code
    by (simp add: long_status_text_def match_at_def is_space_def is_word_def Let_def)
  have 2: "has_match ''SSL config:'' is_dot long_status_text"
    unfolding has_match_code
    by (simp add: long_status_text_def match_at_def is_space_def is_dot_def Let_def)
  have 3: "has_match ''number of clients:'' is_digit long_status_text"
    unfolding has_match_code by (simp add: long_status_captured)
  have "parse_status_command_output long_status_text = Inl ValueError"
    by (simp add: parse_result long_status_captured long_count_length)
  with 1 2 3 show ?thesis by blast
qed

text \<open>
  C7, amended. For every status text that contains all three patterns and whose client
  count has no more digits than \<open>int\<close> converts (4300),
  \<open>parse_status_command_output\<close> returns a record with all three fields set:
  \<open>redistribution_status\<close> is the captured word, \<open>ssl_config\<close> is the captured
  description lowercased with every space replaced by an underscore (so it holds no
  space), and \<open>number_of_clients\<close> is the decimal value of the captured digits, which is
  not negative. The captures are those of the leftmost greedy matches, and there is no
  other. The first half says so for texts of any code points, whatever the character
  tables of the runtime; the second for the parser of the script on code points below
  256, where lowercasing moreover leaves \<open>ssl_config\<close> unchanged.
\<close>

theorem parse_all_three_fields:
  "(u_has_match U (u_lit U ''Redistribution service:'') (u_word U) text \<and>
    u_has_match U (u_lit U ''SSL config:'') (u_dot U) text \<and>
    u_has_match U (u_lit U ''number of clients:'') (u_digit U) text \<and>
    u_count_fits U text \<longrightarrow>
    (\<exists>status ssl clients.
       u_parse U text =
         Inr \<lparr>u_redistribution_status = Some status,
              u_ssl_config = Some (u_replace_space U (u_lower U ssl)),
              u_number_of_clients = Some (u_decimal U clients)\<rparr> \<and>
       u_group U (u_lit U ''Redistribution service:'') (u_word U) text status \<and>
       u_group U (u_lit U ''SSL config:'') (u_dot U) text ssl \<and>
       u_group U (u_lit U ''number of clients:'') (u_digit U) text clients \<and>
       (\<forall>c. u_group U (u_lit U ''Redistribution service:'') (u_word U) text c \<longrightarrow> c = status) \<and>
       (\<forall>c. u_group U (u_lit U ''SSL config:'') (u_dot U) text c \<longrightarrow> c = ssl) \<and>
       (\<forall>c. u_group U (u_lit U ''number of clients:'') (u_digit U) text c \<longrightarrow> c = clients) \<and>
       (u_chr U CHR ''_'' \<noteq> u_chr U CHR '' '' \<longrightarrow>
          u_chr U CHR '' '' \<notin> set (u_replace_space U (u_lower U ssl))) \<and>
       ((\<forall>c. u_digit U c \<longrightarrow> 0 \<le> u_value U c) \<longrightarrow> 0 \<le> u_decimal U clients))) \<and>
   (has_match ''Redistribution service:'' is_word s \<and>
    has_match ''SSL config:'' is_dot s \<and>
    has_match ''number of clients:'' is_digit s \<and>
    count_fits s \<longrightarrow>
    (\<exists>status ssl clients.
       parse_status_command_output s =
         Inr \<lparr>redistribution_status = Some status,
              ssl_config = Some (replace_space (py_lower ssl)),
              number_of_clients = Some (decimal clients)\<rparr> \<and>
       re_group ''Redistribution service:'' is_word s status \<and>
       re_group ''SSL config:'' is_dot s ssl \<and>
       re_group ''number of clients:'' is_digit s clients \<and>
       (\<forall>c. re_group ''Redistribution service:'' is_word s c \<longrightarrow> c = status) \<and>
       (\<forall>c. re_group ''SSL config:'' is_dot s c \<longrightarrow> c = ssl) \<and>
       (\<forall>c. re_group ''number of clients:'' is_digit s c \<longrightarrow> c = clients) \<and>
       CHR '' '' \<notin> set (replace_space (py_lower ssl)) \<and>
       py_lower (replace_space (py_lower ssl)) = replace_space (py_lower ssl) \<and>
       0 \<le> decimal clients))"
  using u_all_three_fields[of U "text"] latin1_all_three_fields[of s] by blast

text \<open>
  The example of C7: the three lines \<open>Redistribution service: up\<close>,
  \<open>SSL config: Default certificates\<close>, \<open>number of clients: 3\<close> give
  \<open>up\<close>, \<open>default_certificates\<close> and \<open>3\<close>.
\<close>

theorem parse_all_three_fields_witness:
  "has_match ''Redistribution service:'' is_word status_example \<and>
   has_match ''SSL config:'' is_dot status_example \<and>
   has_match ''number of clients:'' is_digit status_example \<and>
   count_fits status_example \<and>
   u_has_match latin1 (u_lit latin1 ''Redistribution service:'') (u_word latin1) status_example \<and>
   u_has_match latin1 (u_lit latin1 ''SSL config:'') (u_dot latin1) status_example \<and>
   u_has_match latin1 (u_lit latin1 ''number of clients:'') (u_digit latin1) status_example \<and>
   u_count_fits latin1 status_example \<and>
   (\<exists>status ssl clients.
      re_group ''Redistribution service:'' is_word status_example status \<and>
      re_group ''SSL config:'' is_dot status_example ssl \<and>
      re_group ''number of clients:'' is_digit status_example clients \<and>
      Some status = Some ''up'' \<and>
      Some (replace_space (py_lower ssl)) = Some ''default_certificates'' \<and>
      Some (decimal clients) = Some 3) \<and>
   (\<exists>status ssl clients.
      u_parse latin1 status_example =
         Inr \<lparr>u_redistribution_status = Some status,
              u_ssl_config = Some (u_replace_space latin1 (u_lower latin1 ssl)),
              u_number_of_clients = Some (u_decimal latin1 clients)\<rparr>) \<and>
   parse_status_command_output status_example =
     Inr \<lparr>redistribution_status = Some ''up'', ssl_config = Some ''default_certificates'',
          number_of_clients = Some 3\<rparr>"
proof -
  have 1: "has_match ''Redistribution service:'' is_word status_example"
    unfolding has_match_code by code_simp
  have 2: "has_match ''SSL config:'' is_dot status_example"
    unfolding has_match_code by code_simp
  have 3: "has_match ''number of clients:'' is_digit status_example"
    unfolding has_match_code by code_simp
  have 4: "count_fits status_example" by (rule status_example_fits)
  have u1: "u_has_match latin1 (u_lit latin1 ''Redistribution service:'') (u_word latin1) status_example"
    using 1 by (simp add: latin1_has_match latin1_lit latin1_classes)
  have u2: "u_has_match latin1 (u_lit latin1 ''SSL config:'') (u_dot latin1) status_example"
    using 2 by (simp add: latin1_has_match latin1_lit latin1_classes)
  have u3: "u_has_match latin1 (u_lit latin1 ''number of clients:'') (u_digit latin1) status_example"
    using 3 by (simp add: latin1_has_match latin1_lit latin1_classes)
  have u4: "u_count_fits latin1 status_example"
    using 4 by (simp add: latin1_count_fits)
  from parse_all_three_fields[of latin1 status_example status_example] 1 2 3 4 u1 u2 u3 u4
  obtain status ssl clients where
    p: "parse_status_command_output status_example =
             Inr \<lparr>redistribution_status = Some status,
                  ssl_config = Some (replace_space (py_lower ssl)),
                  number_of_clients = Some (decimal clients)\<rparr>"
    and c: "re_group ''Redistribution service:'' is_word status_example status"
      "re_group ''SSL config:'' is_dot status_example ssl"
      "re_group ''number of clients:'' is_digit status_example clients"
    and g: "\<exists>status ssl clients.
      u_parse latin1 status_example =
         Inr \<lparr>u_redistribution_status = Some status,
              u_ssl_config = Some (u_replace_space latin1 (u_lower latin1 ssl)),
              u_number_of_clients = Some (u_decimal latin1 clients)\<rparr>"
    by blast
  from p have "Some status = Some ''up''"
    "Some (replace_space (py_lower ssl)) = Some ''default_certificates''"
    "Some (decimal clients) = Some 3"
    unfolding status_example_parsed by simp_all
  with 1 2 3 4 u1 u2 u3 u4 c g status_example_parsed show ?thesis by blast
qed

text \<open>
  C8, as stated, fails. On a text whose client count has 4301 digits \<open>int\<close> in line 104
  raises \<open>ValueError\<close> and the function raises with it.
\<close>

theorem long_count_raises:
  "parse_status_command_output long_count_text = Inl ValueError"
  by (simp add: parse_result long_count_captured long_count_length)

text \<open>
  C8, amended. For every input string whose client count has no more digits than \<open>int\<close>
  converts (4300), \<open>parse_status_command_output\<close> returns a record and raises nothing,
  and each of the three fields is absent from the record exactly when the text does not
  contain the field's pattern; empty and unrelated texts are among these inputs. On every
  other input, a count of more than 4300 digits, it raises \<open>ValueError\<close>. The first half
  says so for texts of any code points, whatever the character tables of the runtime;
  the second for the parser of the script on code points below 256.
\<close>

theorem parse_raises_only_on_long_count:
  "(if u_count_fits U text
    then \<exists>p. u_parse U text = Inr p \<and>
       (u_redistribution_status p = None \<longleftrightarrow>
          \<not> u_has_match U (u_lit U ''Redistribution service:'') (u_word U) text) \<and>
       (u_ssl_config p = None \<longleftrightarrow> \<not> u_has_match U (u_lit U ''SSL config:'') (u_dot U) text) \<and>
       (u_number_of_clients p = None \<longleftrightarrow>
          \<not> u_has_match U (u_lit U ''number of clients:'') (u_digit U) text)
    else u_parse U text = Inl ValueError) \<and>
   (if count_fits s
    then \<exists>p. parse_status_command_output s = Inr p \<and>
       (redistribution_status p = None \<longleftrightarrow> \<not> has_match ''Redistribution service:'' is_word s) \<and>
       (ssl_config p = None \<longleftrightarrow> \<not> has_match ''SSL config:'' is_dot s) \<and>
       (number_of_clients p = None \<longleftrightarrow> \<not> has_match ''number of clients:'' is_digit s)
    else parse_status_command_output s = Inl ValueError)"
  using u_raises_only_on_long_count[of U "text"] latin1_raises_only_on_long_count[of s]
  by blast

theorem parse_raises_only_on_long_count_witness:
  "count_fits [] \<and>
   parse_status_command_output [] =
     Inr \<lparr>redistribution_status = None, ssl_config = None, number_of_clients = None\<rparr> \<and>
   count_fits ''login banner'' \<and>
   (\<exists>p. parse_status_command_output ''login banner'' = Inr p \<and>
       redistribution_status p = None \<and> ssl_config p = None \<and> number_of_clients p = None \<and>
       \<not> has_match ''Redistribution service:'' is_word ''login banner'' \<and>
       \<not> has_match ''SSL config:'' is_dot ''login banner'' \<and>
       \<not> has_match ''number of clients:'' is_digit ''login banner'') \<and>
   u_count_fits latin1 ''login banner'' \<and>
   (\<exists>p. u_parse latin1 ''login banner'' = Inr p) \<and>
   \<not> count_fits long_count_text \<and>
   parse_status_command_output long_count_text = Inl ValueError \<and>
   \<not> u_count_fits latin1 long_count_text \<and>
   u_parse latin1 long_count_text = Inl ValueError"
proof -
  have f0: "count_fits []" by (simp add: count_fits_code match_at_def)
  have e0: "parse_status_command_output [] =
     Inr \<lparr>redistribution_status = None, ssl_config = None, number_of_clients = None\<rparr>"
    by code_simp
  have n: "re_search ''number of clients:'' is_digit ''login banner'' = None" by code_simp
  have f: "count_fits ''login banner''" unfolding count_fits_code n by simp
  have uf: "u_count_fits latin1 ''login banner''" using f by (simp add: latin1_count_fits)
  have e: "parse_status_command_output ''login banner'' =
     Inr \<lparr>redistribution_status = None, ssl_config = None, number_of_clients = None\<rparr>"
    by code_simp
  have l: "\<not> count_fits long_count_text"
    by (simp add: count_fits_code long_count_captured long_count_length)
  have ul: "\<not> u_count_fits latin1 long_count_text" using l by (simp add: latin1_count_fits)
  note t = parse_raises_only_on_long_count[of latin1 "''login banner''" "''login banner''"]
  note t' = parse_raises_only_on_long_count[of latin1 long_count_text long_count_text]
  from t f have
    "\<exists>p. parse_status_command_output ''login banner'' = Inr p \<and>
       redistribution_status p = None \<and> ssl_config p = None \<and> number_of_clients p = None \<and>
       \<not> has_match ''Redistribution service:'' is_word ''login banner'' \<and>
       \<not> has_match ''SSL config:'' is_dot ''login banner'' \<and>
       \<not> has_match ''number of clients:'' is_digit ''login banner''"
    unfolding e by auto
  moreover from t uf have "\<exists>p. u_parse latin1 ''login banner'' = Inr p" by auto
  moreover from t' l have "parse_status_command_output long_count_text = Inl ValueError" by simp
  moreover from t' ul have "u_parse latin1 long_count_text = Inl ValueError" by simp
  ultimately show ?thesis using f0 e0 f uf l ul by blast
qed


section \<open>Sequencing and the phases of a run\<close>

lemma seq_Inl: "seq (t, Inl e) f = (t, Inl e)"
  by (simp add: seq_def)

lemma seq_Inr: "seq (t, Inr a) f = (t @ fst (f a), snd (f a))"
  by (simp add: seq_def split: prod.splits)

lemma snd_seq: "snd (seq m f) = (case snd m of Inl e \<Rightarrow> Inl e | Inr a \<Rightarrow> snd (f a))"
  by (cases m) (auto simp: seq_def split: sum.splits prod.splits)

lemma fst_seq: "fst (seq m f) = (case snd m of Inl e \<Rightarrow> fst m | Inr a \<Rightarrow> fst m @ fst (f a))"
  by (cases m) (auto simp: seq_def split: sum.splits prod.splits)

lemma parse_empty: "parse_status_command_output [] =
     Inr \<lparr>redistribution_status = None, ssl_config = None, number_of_clients = None\<rparr>"
  by (simp add: parse_result match_at_def)

lemma netmiko_phase_connected:
  assumes "ssh_connect w"
    and "\<forall>out. ssh_send w = Some out \<longrightarrow> count_fits out"
  shows "\<exists>pre parsed_output.
           netmiko_phase w = (SshConnect # pre @ [SshDisconnect], Inr parsed_output) \<and>
           SshConnect \<notin> set pre \<and> SshDisconnect \<notin> set pre \<and> (\<forall>ev\<in>set pre. \<not> is_api ev)"
proof (cases "ssh_send w")
  case None
  with assms(1) show ?thesis
    by (simp add: netmiko_phase_def connect_to_panorama_def send_command_to_panorama_def
        seq_Inr is_api_def)
next
  case (Some out)
  with assms(2) have "count_fits out" by simp
  then obtain p where p: "parse_status_command_output out = Inr p"
    by (simp add: parse_count_fits)
  from assms(1) Some p show ?thesis
    by (cases "out = []")
       (simp_all add: netmiko_phase_def connect_to_panorama_def send_command_to_panorama_def
        seq_Inr is_api_def)
qed

lemma netmiko_phase_raises:
  assumes "ssh_connect w" and "ssh_send w = Some out" and "\<not> count_fits out"
  shows "netmiko_phase w =
           ([SshConnect, Log Debug ''Connected successfully to the device.'',
             Log Debug ''Sending command'', SshSend, Log Debug ''Command executed.'',
             Log Debug ''Command output:'', Log Debug ''output''], Inl ValueError)"
proof -
  have p: "parse_status_command_output out = Inl ValueError"
    using assms(3) by (rule parse_count_too_long)
  then have "out \<noteq> []" using parse_empty by auto
  with assms(1,2) p show ?thesis
    by (simp add: netmiko_phase_def connect_to_panorama_def send_command_to_panorama_def
        seq_Inr seq_Inl)
qed

lemma netmiko_phase_not_connected:
  "\<not> ssh_connect w \<Longrightarrow>
     netmiko_phase w =
       ([SshConnect, Log Error ''Error connecting to the device'',
         Log Error ''Unable to establish connection with the device.''], Inr None)"
  by (simp add: netmiko_phase_def connect_to_panorama_def seq_Inr)

lemma gate_phase_eq: "gate_phase w = (fst (netmiko_phase w), rbind (snd (netmiko_phase w)) gate_check)"
  by (cases "netmiko_phase w")
     (auto simp: gate_phase_def seq_def rbind_def split: sum.splits)

lemma netmiko_phase_cong:
  "ssh_connect w' = ssh_connect w \<Longrightarrow> ssh_send w' = ssh_send w \<Longrightarrow>
     netmiko_phase w' = netmiko_phase w"
proof -
  assume a: "ssh_connect w' = ssh_connect w" "ssh_send w' = ssh_send w"
  have "connect_to_panorama w' = connect_to_panorama w"
    by (simp add: connect_to_panorama_def a)
  moreover have "send_command_to_panorama w' = send_command_to_panorama w"
    by (simp add: send_command_to_panorama_def a)
  ultimately show ?thesis by (simp only: netmiko_phase_def)
qed

lemma gate_phase_cong:
  "ssh_connect w' = ssh_connect w \<Longrightarrow> ssh_send w' = ssh_send w \<Longrightarrow> gate_phase w' = gate_phase w"
  using netmiko_phase_cong[of w' w] by (simp add: gate_phase_def)

lemma collect_device_cong:
  "fw_redist w' = fw_redist w \<Longrightarrow> fw_sysinfo w' = fw_sysinfo w \<Longrightarrow>
     collect_device w' i s = collect_device w i s"
  by (simp add: collect_device_def)

lemma collect_loop_cong:
  "fw_redist w' = fw_redist w \<Longrightarrow> fw_sysinfo w' = fw_sysinfo w \<Longrightarrow>
     collect_loop w' i ss acc = collect_loop w i ss acc"
proof (induction ss arbitrary: i acc)
  case Nil
  show ?case by simp
next
  case (Cons s ss)
  from Cons.prems have "collect_device w' i s = collect_device w i s"
    by (rule collect_device_cong)
  with Cons.IH[OF Cons.prems] show ?case by simp
qed

lemma render_cong: "tabulate w' = tabulate w \<Longrightarrow> render w' report = render w report"
  by (simp add: render_def make_table_def)

lemma main_cases:
  "main w =
     (case gate_phase w of
        (t1, Inl e) \<Rightarrow> (t1, Raised e)
      | (t1, Inr False) \<Rightarrow> (t1, GateSkipped)
      | (t1, Inr True) \<Rightarrow>
          (case audit w of
             (t2, Inl e) \<Rightarrow> (t1 @ t2, Raised e)
           | (t2, Inr (report, table)) \<Rightarrow> (t1 @ t2, Complete report table)))"
proof (cases "gate_phase w")
  case (Pair t1 r)
  show ?thesis
  proof (cases r)
    case (Inl e)
    with Pair show ?thesis by (simp add: main_def seq_Inl)
  next
    case (Inr proceed)
    show ?thesis
    proof (cases proceed)
      case False
      with Pair Inr show ?thesis by (simp add: main_def seq_Inr)
    next
      case True
      obtain t2 r2 where a: "audit w = (t2, r2)" by (cases "audit w")
      show ?thesis
      proof (cases r2)
        case (Inl e)
        with Pair Inr True a show ?thesis by (simp add: main_def seq_Inr seq_Inl)
      next
        case (Inr v)
        with Pair \<open>r = Inr proceed\<close> True a show ?thesis
          by (cases v) (simp add: main_def seq_Inr)
      qed
    qed
  qed
qed

lemma audit_cases:
  "audit w =
     (case enumerate_phase w of
        (t2, Inl e) \<Rightarrow> (t2, Inl e)
      | (t2, Inr children) \<Rightarrow>
          (case collect_loop w 0 children [] of
             (t3, Inl e) \<Rightarrow> (t2 @ t3, Inl e)
           | (t3, Inr report) \<Rightarrow>
               (t2 @ t3 @ [Print (make_table w report)], Inr (report, make_table w report))))"
proof (cases "enumerate_phase w")
  case (Pair t2 r)
  show ?thesis
  proof (cases r)
    case (Inl e)
    with Pair show ?thesis by (simp add: audit_def seq_Inl)
  next
    case (Inr children)
    obtain t3 r3 where l: "collect_loop w 0 children [] = (t3, r3)"
      by (cases "collect_loop w 0 children []")
    from Pair Inr l show ?thesis
      by (cases r3) (simp_all add: audit_def seq_Inr seq_Inl render_def Let_def)
  qed
qed

lemma snd_main:
  "snd (main w) =
     (case snd (gate_phase w) of
        Inl e \<Rightarrow> Raised e
      | Inr proceed \<Rightarrow>
          if proceed then
            (case snd (audit w) of Inl e \<Rightarrow> Raised e | Inr (report, table) \<Rightarrow> Complete report table)
          else GateSkipped)"
  by (cases "gate_phase w"; cases "audit w")
     (auto simp: main_cases split: sum.splits bool.splits prod.splits)

lemma fst_main:
  "fst (main w) =
     (case snd (gate_phase w) of
        Inl e \<Rightarrow> fst (gate_phase w)
      | Inr proceed \<Rightarrow>
          if proceed then fst (gate_phase w) @ fst (audit w) else fst (gate_phase w))"
  by (cases "gate_phase w"; cases "audit w")
     (auto simp: main_cases split: sum.splits bool.splits prod.splits)

lemma snd_audit:
  "snd (audit w) =
     (case snd (enumerate_phase w) of
        Inl e \<Rightarrow> Inl e
      | Inr children \<Rightarrow>
          (case snd (collect_loop w 0 children []) of
             Inl e \<Rightarrow> Inl e
           | Inr report \<Rightarrow> Inr (report, make_table w report)))"
  by (cases "enumerate_phase w")
     (auto simp: audit_cases split: sum.splits prod.splits)

lemma fst_audit:
  "fst (audit w) =
     (case snd (enumerate_phase w) of
        Inl e \<Rightarrow> fst (enumerate_phase w)
      | Inr children \<Rightarrow>
          (case snd (collect_loop w 0 children []) of
             Inl e \<Rightarrow> fst (enumerate_phase w) @ fst (collect_loop w 0 children [])
           | Inr report \<Rightarrow>
               fst (enumerate_phase w) @ fst (collect_loop w 0 children []) @
               [Print (make_table w report)]))"
  by (cases "enumerate_phase w")
     (auto simp: audit_cases split: sum.splits prod.splits)

lemma list_all_fst_seq:
  "list_all P (fst m) \<Longrightarrow> (\<And>a. list_all P (fst (f a))) \<Longrightarrow> list_all P (fst (seq m f))"
  by (simp add: fst_seq split: sum.splits)

lemma validate_creds_events:
  "P ApiValidate \<Longrightarrow> (\<And>l m. P (Log l m)) \<Longrightarrow> list_all P (fst (validate_creds w))"
  by (simp add: validate_creds_def split: option.splits)

lemma register_each_events:
  "(\<And>h. P (ApiRegister h)) \<Longrightarrow> list_all P (fst (register_each children entries))"
proof (induction entries arbitrary: children)
  case Nil
  show ?case by simp
next
  case (Cons each entries)
  show ?case
    by (cases "subscript each ''host''")
       (simp_all add: list_all_fst_seq Cons)
qed

lemma register_members_events:
  "(\<And>h. P (ApiRegister h)) \<Longrightarrow> list_all P (fst (register_members entry))"
  by (cases entry) (simp_all add: register_members_def register_each_events split: sum.splits option.splits)

lemma collect_device_events:
  "(\<And>m. P (Log Debug m)) \<Longrightarrow> (\<And>i s. P (FwRedist i s)) \<Longrightarrow> (\<And>i s. P (FwSysInfo i s)) \<Longrightarrow>
     list_all P (fst (collect_device w i s))"
  unfolding collect_device_def
  by (intro list_all_fst_seq) (simp_all add: op_step_def)

lemma collect_loop_events:
  assumes "\<And>m. P (Log Debug m)" "\<And>i s. P (FwRedist i s)" "\<And>i s. P (FwSysInfo i s)"
  shows "list_all P (fst (collect_loop w i ss acc))"
proof (induction ss arbitrary: i acc)
  case Nil
  show ?case by simp
next
  case (Cons s ss)
  show ?case
    using collect_device_events[of P w i s, OF assms] Cons
    by (simp add: list_all_fst_seq)
qed


section \<open>The gate\<close>

text \<open>
  With both fields set the gate is the conjunction of the two comparisons; a status other
  than \<open>up\<close> decides it without a look at \<open>ssl_config\<close>, and the run then ends at the
  gate with no API operation.
\<close>

lemma gate_check_both_set:
  "gate_check (Some \<lparr>redistribution_status = Some status, ssl_config = Some ssl,
                     number_of_clients = n\<rparr>) =
     Inr (status = ''up'' \<and> ssl = ''default_certificates'')"
  by (simp add: gate_check_def)

lemma gate_check_status_not_up:
  "status \<noteq> ''up'' \<Longrightarrow>
     gate_check (Some \<lparr>redistribution_status = Some status, ssl_config = ssl,
                       number_of_clients = n\<rparr>) = Inr False"
  by (simp add: gate_check_def)

text \<open>
  What the SSH phase leaves in \<open>parsed_output\<close>, and the two ways in which the gate
  raises: on every non-empty output without the service line (and with a count that
  \<open>int\<close> converts), and whenever there is no output.
\<close>

lemma netmiko_phase_output:
  "ssh_connect w \<Longrightarrow> ssh_send w = Some out \<Longrightarrow> out \<noteq> [] \<Longrightarrow>
     parse_status_command_output out = Inr p \<Longrightarrow> snd (netmiko_phase w) = Inr (Some p)"
  by (simp add: netmiko_phase_def connect_to_panorama_def send_command_to_panorama_def seq_Inr)

lemma netmiko_phase_no_output:
  "ssh_connect w \<Longrightarrow> ssh_send w = None \<or> ssh_send w = Some [] \<Longrightarrow>
     snd (netmiko_phase w) = Inr None"
  by (auto simp: netmiko_phase_def connect_to_panorama_def send_command_to_panorama_def seq_Inr)

lemma missing_status_always_raises:
  assumes "ssh_connect w" "ssh_send w = Some out" "out \<noteq> []"
    and "count_fits out"
    and "\<not> has_match ''Redistribution service:'' is_word out"
  shows "snd (main w) = Raised (KeyError ''redistribution_status'')"
proof -
  from parse_count_fits[OF assms(4)] assms(5) obtain p where
    p: "parse_status_command_output out = Inr p" and "redistribution_status p = None"
    by (auto simp: re_search_None_iff)
  with netmiko_phase_output[OF assms(1,2,3) p]
  have "snd (gate_phase w) = Inl (KeyError ''redistribution_status'')"
    by (simp add: gate_phase_eq rbind_def gate_check_def)
  then show ?thesis by (simp add: snd_main)
qed

lemma no_output_always_raises:
  assumes "ssh_connect w" "ssh_send w = None \<or> ssh_send w = Some []"
  shows "snd (main w) = Raised (NameError ''parsed_output'')"
proof -
  from netmiko_phase_no_output[OF assms]
  have "snd (gate_phase w) = Inl (NameError ''parsed_output'')"
    by (simp add: gate_phase_eq rbind_def gate_check_def)
  then show ?thesis by (simp add: snd_main)
qed

lemma gate_skipped_when_down:
  "main (fleet\<lparr>ssh_send := Some ''Redistribution service: down''\<rparr>) = (gate_trace, GateSkipped)"
  by code_simp

text \<open>
  C1. The gate is to proceed exactly when \<open>redistribution_status\<close> is \<open>up\<close> and
  \<open>ssl_config\<close> is \<open>default_certificates\<close>, and to end the run as GateSkipped for
  every other combination, unset fields included. With both fields set the script does
  so (\<open>gate_check_both_set\<close>). With a field unset it does not: the subscript of line 146
  or 147 raises. On a status text without the service line the run ends with
  \<open>KeyError: 'redistribution_status'\<close>, and on a text with the service \<open>up\<close> and no
  SSL line with \<open>KeyError: 'ssl_config'\<close>; in both runs the SSH session has been closed
  and no API operation was performed.
\<close>

theorem gate_unset_field_raises:
  "gate_check (Some \<lparr>redistribution_status = None, ssl_config = Some ''default_certificates'',
                     number_of_clients = None\<rparr>) = Inl (KeyError ''redistribution_status'') \<and>
   gate_check (Some \<lparr>redistribution_status = Some ''up'', ssl_config = None,
                     number_of_clients = None\<rparr>) = Inl (KeyError ''ssl_config'') \<and>
   main (fleet\<lparr>ssh_send := Some ''SSL config: Default certificates''\<rparr>) =
     (gate_trace, Raised (KeyError ''redistribution_status'')) \<and>
   main (fleet\<lparr>ssh_send := Some ''Redistribution service: up''\<rparr>) =
     (gate_trace, Raised (KeyError ''ssl_config''))"
  by code_simp

text \<open>
  C3. When the status command produces no output the run is to end early as GateSkipped,
  without an error. The script logs that no output was received and closes the session,
  and then reads \<open>parsed_output\<close> in line 146, which was never assigned: the run ends
  with a \<open>NameError\<close>, both for an empty output and for a command that failed. No API
  operation is performed in either run.
\<close>

theorem no_output_raises_name_error:
  "main (fleet\<lparr>ssh_send := Some ''''\<rparr>) =
     ([SshConnect, Log Debug ''Connected successfully to the device.'',
       Log Debug ''Sending command'', SshSend, Log Debug ''Command executed.'',
       Log Debug ''No output received from the command.'', SshDisconnect],
      Raised (NameError ''parsed_output'')) \<and>
   main (fleet\<lparr>ssh_send := None\<rparr>) =
     ([SshConnect, Log Debug ''Connected successfully to the device.'',
       Log Debug ''Sending command'', SshSend, Log Error ''Error sending command'',
       Log Debug ''No output received from the command.'', SshDisconnect],
      Raised (NameError ''parsed_output''))"
  by code_simp


section \<open>The SSH session\<close>

lemma audit_events:
  assumes "\<And>l m. P (Log l m)" "P ApiValidate" "P ApiEnumerate" "\<And>h. P (ApiRegister h)"
    "P ApiConnected" "\<And>i s. P (FwRedist i s)" "\<And>i s. P (FwSysInfo i s)" "\<And>t. P (Print t)"
  shows "list_all P (fst (audit w))"
proof -
  have v: "list_all P (fst (validate_creds w))" by (rule validate_creds_events) (rule assms)+
  have r: "\<And>entry. list_all P (fst (register_members entry))"
    by (rule register_members_events) (rule assms)
  have m: "list_all P (fst (enumerate_members w))"
    unfolding enumerate_members_def
    by (intro list_all_fst_seq r) (simp_all add: op_step_def assms)
  have e: "list_all P (fst (enumerate_phase w))"
    unfolding enumerate_phase_def by (intro list_all_fst_seq v m)
  have c: "\<And>children. list_all P (fst (collect_loop w 0 children []))"
    by (rule collect_loop_events) (rule assms)+
  show ?thesis
    using e c assms(8) by (simp add: fst_audit split: sum.splits)
qed

lemma audit_no_ssh: "SshConnect \<notin> set (fst (audit w)) \<and> SshDisconnect \<notin> set (fst (audit w))"
proof -
  have "list_all (\<lambda>ev. ev \<noteq> SshConnect \<and> ev \<noteq> SshDisconnect) (fst (audit w))"
    by (rule audit_events) simp_all
  then show ?thesis by (auto simp: list_all_iff)
qed

text \<open>
  C9, as stated, fails. The session is opened and the status command returns the three
  lines with a count of 4301 digits: the parser raises in line 133, before the
  \<open>disconnect\<close> of line 140, and nothing catches it. The run ends with \<open>ValueError\<close> and
  the session is never closed.
\<close>

theorem long_count_leaves_session_open:
  "ssh_connect long_count_run \<and>
   main long_count_run =
     ([SshConnect, Log Debug ''Connected successfully to the device.'',
       Log Debug ''Sending command'', SshSend, Log Debug ''Command executed.'',
       Log Debug ''Command output:'', Log Debug ''output''],
      Raised ValueError)"
proof -
  have c: "ssh_connect long_count_run" by (simp add: long_count_run_def fleet_def)
  have s: "ssh_send long_count_run = Some long_status_text" by (simp add: long_count_run_def)
  from netmiko_phase_raises[OF c s long_status_too_long] c show ?thesis
    by (simp add: main_cases gate_phase_eq rbind_def)
qed

text \<open>
  C9, amended. In every run in which the SSH session is opened and the status parser
  does not raise (the command failed, gave no output, or gave an output whose client
  count has no more than 4300 digits), the session is opened once and closed exactly
  once, and no operation of the management API comes before the close: the trace of the
  run is \<open>SshConnect # pre @ SshDisconnect # post\<close> with no other connect or disconnect
  in \<open>pre\<close> or \<open>post\<close> and no API event in \<open>pre\<close>. When the parser raises, on an output
  with a longer count, the run ends with \<open>ValueError\<close>, the session is not closed and no
  API operation is performed.
\<close>

theorem ssh_session_closed_once:
  assumes "ssh_connect w"
  shows "((\<forall>out. ssh_send w = Some out \<longrightarrow> count_fits out) \<longrightarrow>
            (\<exists>pre post. fst (main w) = SshConnect # pre @ SshDisconnect # post \<and>
               SshConnect \<notin> set pre \<and> SshConnect \<notin> set post \<and>
               SshDisconnect \<notin> set pre \<and> SshDisconnect \<notin> set post \<and>
               (\<forall>ev\<in>set pre. \<not> is_api ev))) \<and>
         ((\<exists>out. ssh_send w = Some out \<and> \<not> count_fits out) \<longrightarrow>
            SshDisconnect \<notin> set (fst (main w)) \<and> (\<forall>ev\<in>set (fst (main w)). \<not> is_api ev) \<and>
            snd (main w) = Raised ValueError)"
proof (intro conjI impI)
  assume fits: "\<forall>out. ssh_send w = Some out \<longrightarrow> count_fits out"
  from netmiko_phase_connected[OF assms fits] obtain pre parsed_output where
    n: "netmiko_phase w = (SshConnect # pre @ [SshDisconnect], Inr parsed_output)"
    and pre: "SshConnect \<notin> set pre" "SshDisconnect \<notin> set pre" "\<forall>ev\<in>set pre. \<not> is_api ev"
    by blast
  from n have g: "fst (gate_phase w) = SshConnect # pre @ [SshDisconnect]"
    by (simp add: gate_phase_eq)
  have "fst (main w) = SshConnect # pre @ SshDisconnect # [] \<or>
        fst (main w) = SshConnect # pre @ SshDisconnect # fst (audit w)"
    by (simp add: fst_main g split: sum.splits)
  with pre audit_no_ssh[of w]
  show "\<exists>pre post. fst (main w) = SshConnect # pre @ SshDisconnect # post \<and>
               SshConnect \<notin> set pre \<and> SshConnect \<notin> set post \<and>
               SshDisconnect \<notin> set pre \<and> SshDisconnect \<notin> set post \<and>
               (\<forall>ev\<in>set pre. \<not> is_api ev)"
    by (metis empty_iff empty_set)
next
  assume "\<exists>out. ssh_send w = Some out \<and> \<not> count_fits out"
  then obtain out where o: "ssh_send w = Some out" "\<not> count_fits out" by blast
  from netmiko_phase_raises[OF assms o]
  have m: "main w =
     ([SshConnect, Log Debug ''Connected successfully to the device.'',
       Log Debug ''Sending command'', SshSend, Log Debug ''Command executed.'',
       Log Debug ''Command output:'', Log Debug ''output''],
      Raised ValueError)"
    by (simp add: main_cases gate_phase_eq rbind_def)
  show "SshDisconnect \<notin> set (fst (main w))" by (simp add: m)
  show "\<forall>ev\<in>set (fst (main w)). \<not> is_api ev" by (simp add: m is_api_def)
  show "snd (main w) = Raised ValueError" by (simp add: m)
qed

theorem ssh_session_closed_once_witness:
  "ssh_connect fleet \<and> ssh_send fleet = Some status_example \<and> count_fits status_example \<and>
   (\<exists>pre post. fst (main fleet) = SshConnect # pre @ SshDisconnect # post \<and>
      SshConnect \<notin> set pre \<and> SshConnect \<notin> set post \<and>
      SshDisconnect \<notin> set pre \<and> SshDisconnect \<notin> set post \<and> (\<forall>ev\<in>set pre. \<not> is_api ev)) \<and>
   ssh_connect long_count_run \<and> ssh_send long_count_run = Some long_status_text \<and>
   \<not> count_fits long_status_text \<and>
   SshDisconnect \<notin> set (fst (main long_count_run)) \<and>
   snd (main long_count_run) = Raised ValueError"
proof -
  have c: "ssh_connect fleet" by (simp add: fleet_def)
  have s: "ssh_send fleet = Some status_example" by (simp add: fleet_def)
  have f: "\<forall>out. ssh_send fleet = Some out \<longrightarrow> count_fits out"
    using s status_example_fits by simp
  have c': "ssh_connect long_count_run" by (simp add: long_count_run_def fleet_def)
  have s': "ssh_send long_count_run = Some long_status_text" by (simp add: long_count_run_def)
  have l: "\<exists>out. ssh_send long_count_run = Some out \<and> \<not> count_fits out"
    using s' long_status_too_long by simp
  from ssh_session_closed_once[OF c] f
  have 1: "\<exists>pre post. fst (main fleet) = SshConnect # pre @ SshDisconnect # post \<and>
      SshConnect \<notin> set pre \<and> SshConnect \<notin> set post \<and>
      SshDisconnect \<notin> set pre \<and> SshDisconnect \<notin> set post \<and> (\<forall>ev\<in>set pre. \<not> is_api ev)"
    by blast
  from ssh_session_closed_once[OF c'] l
  have 2: "SshDisconnect \<notin> set (fst (main long_count_run))"
    "snd (main long_count_run) = Raised ValueError"
    by blast+
  from c s status_example_fits 1 c' s' long_status_too_long 2 show ?thesis by blast
qed

section \<open>Registration of the enumerated members\<close>

lemma host_of_subscript: "host_of each = Some h \<Longrightarrow> subscript each ''host'' = Inr h"
  by (cases each) (simp_all add: host_of_def)

lemma register_each_hosts:
  "map host_of entries = map Some hosts \<Longrightarrow>
     register_each children entries = (map ApiRegister hosts, Inr (children @ hosts))"
proof (induction entries arbitrary: children hosts)
  case Nil
  then show ?case by simp
next
  case (Cons each entries)
  from Cons.prems obtain h hs where hosts: "hosts = h # hs" and h: "host_of each = Some h"
    and hs: "map host_of entries = map Some hs"
    by (cases hosts) auto
  from Cons.IH[OF hs, of "children @ [h]"] host_of_subscript[OF h] show ?case
    by (simp add: hosts seq_Inr)
qed

lemma register_each_hostless:
  "map host_of before = map Some hosts \<Longrightarrow> map_of kvs ''host'' = None \<Longrightarrow>
     register_each children (before @ XDict kvs # after) =
       (map ApiRegister hosts, Inl (KeyError ''host''))"
proof (induction before arbitrary: children hosts)
  case Nil
  then show ?case by simp
next
  case (Cons each before)
  from Cons.prems(1) obtain h hs where hosts: "hosts = h # hs" and h: "host_of each = Some h"
    and hs: "map host_of before = map Some hs"
    by (cases hosts) auto
  from Cons.IH[OF hs Cons.prems(2), of "children @ [h]"] host_of_subscript[OF h] show ?case
    by (simp add: hosts seq_Inr)
qed

text \<open>
  C6, as stated, fails. The \<open>entry\<close> field is a single object without a \<open>host\<close>: line
  176 raises \<open>KeyError\<close> and no firewall is registered; the run ends there, after the
  enumeration query. In a list of three objects of which the second has no \<open>host\<close>,
  line 181 raises at the second and only the first is registered.
\<close>

theorem hostless_entry_not_registered:
  "register_members hostless = ([], Inl (KeyError ''host'')) \<and>
   register_members (XList [member ''A'', hostless, member ''C'']) =
     ([ApiRegister (XStr ''A'')], Inl (KeyError ''host'')) \<and>
   main hostless_run =
     (gate_trace @
      [ApiValidate, Log Debug ''Successfully connected to Panorama with credientials'',
       ApiEnumerate, Log Debug ''list_of_redist_clients''],
      Raised (KeyError ''host''))"
  by code_simp

text \<open>
  C6, amended. When the \<open>entry\<close> field of the enumeration response is a single object
  with a \<open>host\<close> field, exactly one firewall is registered, for that host. When it is a
  list of \<open>N\<close> objects that each have a \<open>host\<close> field, exactly \<open>N\<close> firewalls are
  registered, one for each element and in the order of the list. An object without a
  \<open>host\<close> field raises \<open>KeyError\<close>: a single one registers nothing, and a list registers
  the elements before its first such object and no more.
\<close>

theorem register_members_by_shape:
  "(host_of entry = Some h \<longrightarrow> register_members entry = ([ApiRegister h], Inr [h])) \<and>
   (map host_of entries = map Some hosts \<longrightarrow>
      register_members (XList entries) = (map ApiRegister hosts, Inr hosts) \<and>
      length hosts = length entries) \<and>
   (map_of kvs ''host'' = None \<longrightarrow>
      register_members (XDict kvs) = ([], Inl (KeyError ''host'')) \<and>
      (map host_of entries = map Some hosts \<longrightarrow>
         register_members (XList (entries @ XDict kvs # after)) =
           (map ApiRegister hosts, Inl (KeyError ''host''))))"
proof (intro conjI impI)
  assume h: "host_of entry = Some h"
  then obtain kvs where "entry = XDict kvs" by (cases entry) (simp_all add: host_of_def)
  with host_of_subscript[OF h] show "register_members entry = ([ApiRegister h], Inr [h])"
    by (simp add: register_members_def)
next
  assume hs: "map host_of entries = map Some hosts"
  from register_each_hosts[OF hs, of "[]"]
  show "register_members (XList entries) = (map ApiRegister hosts, Inr hosts)"
    by (simp add: register_members_def)
  from hs show "length hosts = length entries" by (metis length_map)
next
  assume "map_of kvs ''host'' = None"
  then show "register_members (XDict kvs) = ([], Inl (KeyError ''host''))"
    by (simp add: register_members_def)
next
  assume n: "map_of kvs ''host'' = None" and hs: "map host_of entries = map Some hosts"
  from register_each_hostless[OF hs n, of "[]" after]
  show "register_members (XList (entries @ XDict kvs # after)) =
           (map ApiRegister hosts, Inl (KeyError ''host''))"
    by (simp add: register_members_def)
qed

theorem register_members_by_shape_witness:
  "host_of (member ''A'') = Some (XStr ''A'') \<and>
   register_members (member ''A'') = ([ApiRegister (XStr ''A'')], Inr [XStr ''A'']) \<and>
   map host_of [member ''A'', member ''B'', member ''C''] =
     map Some [XStr ''A'', XStr ''B'', XStr ''C''] \<and>
   register_members (XList [member ''A'', member ''B'', member ''C'']) =
     (map ApiRegister [XStr ''A'', XStr ''B'', XStr ''C''],
      Inr [XStr ''A'', XStr ''B'', XStr ''C'']) \<and>
   length [XStr ''A'', XStr ''B'', XStr ''C''] = length [member ''A'', member ''B'', member ''C''] \<and>
   map_of [(''serial'', XStr ''B'')] ''host'' = None \<and>
   register_members (XDict [(''serial'', XStr ''B'')]) = ([], Inl (KeyError ''host'')) \<and>
   register_members
     (XList ([member ''A'', member ''B'', member ''C''] @ XDict [(''serial'', XStr ''B'')] # [])) =
     (map ApiRegister [XStr ''A'', XStr ''B'', XStr ''C''], Inl (KeyError ''host''))"
proof -
  have 1: "host_of (member ''A'') = Some (XStr ''A'')" by (simp add: host_of_def member_def)
  have 2: "map host_of [member ''A'', member ''B'', member ''C''] =
     map Some [XStr ''A'', XStr ''B'', XStr ''C'']" by (simp add: host_of_def member_def)
  have 3: "map_of [(''serial'', XStr ''B'')] ''host'' = None" by simp
  from 1 2 3 register_members_by_shape[of "member ''A''" "XStr ''A''"
      "[member ''A'', member ''B'', member ''C'']" "[XStr ''A'', XStr ''B'', XStr ''C'']"
      "[(''serial'', XStr ''B'')]" "[]"]
  show ?thesis by blast
qed

section \<open>Failures during collection\<close>

text \<open>
  The loop has no handler: it stops at the first member whose collection raises. Its
  events are those of the members up to and including that one.
\<close>

lemma collect_loop_first_failure:
  assumes "k < length ss"
    and "snd (collect_device w (i + k) (ss ! k)) = Inl e"
    and "\<forall>j<k. \<exists>f. snd (collect_device w (i + j) (ss ! j)) = Inr f"
  shows "collect_loop w i ss acc =
           (concat (map (\<lambda>j. fst (collect_device w (i + j) (ss ! j))) [0..<Suc k]), Inl e)"
  using assms
proof (induction ss arbitrary: i k acc)
  case Nil
  then show ?case by simp
next
  case (Cons s ss)
  show ?case
  proof (cases k)
    case 0
    with Cons.prems obtain t where d: "collect_device w i s = (t, Inl e)"
      by (cases "collect_device w i s") simp
    then show ?thesis using 0 by (simp add: seq_Inl)
  next
    case (Suc k')
    from Cons.prems(3) Suc obtain f where "snd (collect_device w (i + 0) ((s # ss) ! 0)) = Inr f"
      by blast
    then obtain t where d: "collect_device w i s = (t, Inr f)"
      by (cases "collect_device w i s") simp
    have 1: "k' < length ss" using Cons.prems(1) Suc by simp
    have 2: "snd (collect_device w (Suc i + k') (ss ! k')) = Inl e"
      using Cons.prems(2) Suc by simp
    have 3: "\<forall>j<k'. \<exists>f. snd (collect_device w (Suc i + j) (ss ! j)) = Inr f"
    proof (intro allI impI)
      fix j assume "j < k'"
      then have "Suc j < k" using Suc by simp
      with Cons.prems(3) have "\<exists>f. snd (collect_device w (i + Suc j) ((s # ss) ! Suc j)) = Inr f"
        by blast
      then show "\<exists>f. snd (collect_device w (Suc i + j) (ss ! j)) = Inr f" by simp
    qed
    have "collect_loop w i (s # ss) acc =
            (t @ fst (collect_loop w (Suc i) ss (acc @ [f])),
             snd (collect_loop w (Suc i) ss (acc @ [f])))"
      by (simp add: d seq_Inr)
    also have "collect_loop w (Suc i) ss (acc @ [f]) =
           (concat (map (\<lambda>j. fst (collect_device w (Suc i + j) (ss ! j))) [0..<Suc k']), Inl e)"
      by (rule Cons.IH[OF 1 2 3])
    finally show ?thesis
      unfolding Suc by (simp add: map_upt_Suc d del: upt_Suc)
  qed
qed

lemma main_first_failure:
  assumes "gate_phase w = (t1, Inr True)"
    and "enumerate_phase w = (t2, Inr children)"
    and "k < length children"
    and "snd (collect_device w k (children ! k)) = Inl e"
    and "\<forall>j<k. \<exists>f. snd (collect_device w j (children ! j)) = Inr f"
  shows "main w =
           (t1 @ t2 @ concat (map (\<lambda>j. fst (collect_device w j (children ! j))) [0..<Suc k]),
            Raised e)"
proof -
  have "collect_loop w 0 children [] =
          (concat (map (\<lambda>j. fst (collect_device w (0 + j) (children ! j))) [0..<Suc k]), Inl e)"
    by (rule collect_loop_first_failure) (use assms in simp_all)
  then show ?thesis
    using assms(1,2) by (simp add: main_cases audit_cases)
qed

text \<open>
  C2, as stated, fails. Three members are enumerated and the system-info query of the
  second raises: the run ends with that exception after the queries of the first and the
  second member. Nothing is logged about the failure, the third member is not queried
  and no report is printed.
\<close>

theorem second_member_failure_aborts:
  "main second_member_fails =
     (gate_trace @ fleet_enumeration_trace @ device_trace 0 ''A'' @ [FwRedist 1 (XStr ''B''),
        Log Debug ''redist_client_firewall_info'', FwSysInfo 1 (XStr ''B'')],
      Raised PanDeviceError)"
  by code_simp

text \<open>
  C2, amended. For every run that passes the gate and enumerates the members
  \<open>children\<close>, if the collection of member \<open>k\<close> raises \<open>e\<close> and the members before it
  were collected, then the run ends with the uncaught exception \<open>e\<close>: its events are
  those of the gate, of the enumeration and of the members up to \<open>k\<close>, so that no later
  member is queried and no report is printed. Collecting a member logs no error.
\<close>

theorem member_failure_ends_run:
  assumes "gate_phase w = (t1, Inr True)"
    and "enumerate_phase w = (t2, Inr children)"
    and "k < length children"
    and "snd (collect_device w k (children ! k)) = Inl e"
    and "\<forall>j<k. \<exists>f. snd (collect_device w j (children ! j)) = Inr f"
  shows "main w =
           (t1 @ t2 @ concat (map (\<lambda>j. fst (collect_device w j (children ! j))) [0..<Suc k]),
            Raised e) \<and>
         (\<forall>j m. Log Error m \<notin> set (fst (collect_device w j (children ! j))))"
proof -
  have "list_all (\<lambda>ev. \<forall>m. ev \<noteq> Log Error m) (fst (collect_device w j (children ! j)))" for j
    by (rule collect_device_events) simp_all
  then have "\<forall>j m. Log Error m \<notin> set (fst (collect_device w j (children ! j)))"
    by (auto simp: list_all_iff)
  with main_first_failure[OF assms] show ?thesis by blast
qed

lemma second_member_fails_gate: "gate_phase second_member_fails = (gate_trace, Inr True)"
  by code_simp

lemma second_member_fails_enumeration:
  "enumerate_phase second_member_fails =
     (fleet_enumeration_trace, Inr [XStr ''A'', XStr ''B'', XStr ''C''])"
  by code_simp

theorem member_failure_ends_run_witness:
  "gate_phase second_member_fails = (gate_trace, Inr True) \<and>
   enumerate_phase second_member_fails =
     (fleet_enumeration_trace, Inr [XStr ''A'', XStr ''B'', XStr ''C'']) \<and>
   (1::nat) < length [XStr ''A'', XStr ''B'', XStr ''C''] \<and>
   snd (collect_device second_member_fails 1 ([XStr ''A'', XStr ''B'', XStr ''C''] ! 1)) =
     Inl PanDeviceError \<and>
   snd (collect_device second_member_fails 0 ([XStr ''A'', XStr ''B'', XStr ''C''] ! 0)) =
     Inr (fact_of ''A'') \<and>
   main second_member_fails =
     (gate_trace @ fleet_enumeration_trace @
      concat (map (\<lambda>j. fst (collect_device second_member_fails j
                            ([XStr ''A'', XStr ''B'', XStr ''C''] ! j))) [0..<Suc 1]),
      Raised PanDeviceError)"
proof -
  let ?cs = "[XStr ''A'', XStr ''B'', XStr ''C'']"
  have 3: "(1::nat) < length ?cs" by simp
  have 4: "snd (collect_device second_member_fails 1 (?cs ! 1)) = Inl PanDeviceError"
    by code_simp
  have 0: "snd (collect_device second_member_fails 0 (?cs ! 0)) = Inr (fact_of ''A'')"
    by code_simp
  have 5: "\<forall>j<1. \<exists>f. snd (collect_device second_member_fails j (?cs ! j)) = Inr f"
    using 0 by auto
  from member_failure_ends_run[OF second_member_fails_gate second_member_fails_enumeration 3 4 5]
  have "main second_member_fails =
     (gate_trace @ fleet_enumeration_trace @
      concat (map (\<lambda>j. fst (collect_device second_member_fails j (?cs ! j))) [0..<Suc 1]),
      Raised PanDeviceError)"
    by blast
  with second_member_fails_gate second_member_fails_enumeration 3 4 0
  show ?thesis by blast
qed















section \<open>A rejected validation\<close>

text \<open>
  C4, as stated, fails. \<open>refresh_system_info\<close> raises \<open>PanDeviceError\<close>; the handler of
  line 160 logs it and the script goes on: the member enumeration, the registration and
  the queries of the device follow the failed validation, and the report is printed.
\<close>

theorem rejected_validation_continues:
  "main validation_rejected =
     (gate_trace @
      [ApiValidate, Log Error ''Failed to connect to Panorama'',
       ApiEnumerate, Log Debug ''list_of_redist_clients'', ApiRegister (XStr ''A''),
       Log Debug ''pan.children'', ApiConnected] @ device_trace 0 ''A'' @ [Print ''grid''],
      Complete [fact_of ''A''] ''grid'')"
  by code_simp

lemma enumerate_members_cong:
  "api_enumerate w' = api_enumerate w \<Longrightarrow> api_connected w' = api_connected w \<Longrightarrow>
     enumerate_members w' = enumerate_members w"
  by (simp add: enumerate_members_def)

lemma make_table_cong: "tabulate w' = tabulate w \<Longrightarrow> make_table w' report = make_table w report"
  by (simp add: make_table_def)

lemma enumerate_members_starts:
  "\<exists>rest. fst (enumerate_members w) = ApiEnumerate # rest"
  by (simp add: enumerate_members_def fst_seq op_step_def split: sum.splits)

text \<open>
  C4, amended. If the identity validation raises \<open>PanDeviceError\<close>, the error is logged
  and the audit phase continues: the enumeration query is the next API operation, and
  the run ends as it would have ended after a successful validation.
\<close>

theorem rejected_validation_only_logged:
  assumes "api_validate w = Some PanDeviceError"
  shows "validate_creds w = ([ApiValidate, Log Error ''Failed to connect to Panorama''], Inr ()) \<and>
         enumerate_phase w =
           (ApiValidate # Log Error ''Failed to connect to Panorama'' # fst (enumerate_members w),
            snd (enumerate_members w)) \<and>
         (\<exists>rest. fst (enumerate_members w) = ApiEnumerate # rest) \<and>
         snd (main w) = snd (main (w\<lparr>api_validate := None\<rparr>))"
proof -
  let ?w0 = "w\<lparr>api_validate := None\<rparr>"
  have v: "validate_creds w = ([ApiValidate, Log Error ''Failed to connect to Panorama''], Inr ())"
    using assms by (simp add: validate_creds_def is_pan_device_error_def)
  have e: "enumerate_phase w =
           (ApiValidate # Log Error ''Failed to connect to Panorama'' # fst (enumerate_members w),
            snd (enumerate_members w))"
    by (simp add: enumerate_phase_def v seq_Inr)
  have m: "enumerate_members ?w0 = enumerate_members w"
    by (rule enumerate_members_cong) simp_all
  have e0: "snd (enumerate_phase ?w0) = snd (enumerate_members w)"
    by (simp add: enumerate_phase_def validate_creds_def seq_Inr m)
  have g: "gate_phase ?w0 = gate_phase w" by (rule gate_phase_cong) simp_all
  have l: "\<And>children. collect_loop ?w0 0 children [] = collect_loop w 0 children []"
    by (rule collect_loop_cong) simp_all
  have t: "\<And>report. make_table ?w0 report = make_table w report"
    by (rule make_table_cong) simp
  have "snd (audit ?w0) = snd (audit w)"
    by (simp add: snd_audit e e0 l t split: sum.splits)
  then have "snd (main w) = snd (main ?w0)"
    by (simp add: snd_main g split: sum.splits)
  with v e enumerate_members_starts[of w] show ?thesis by blast
qed

theorem rejected_validation_only_logged_witness:
  "api_validate validation_rejected = Some PanDeviceError \<and>
   validate_creds validation_rejected =
     ([ApiValidate, Log Error ''Failed to connect to Panorama''], Inr ()) \<and>
   snd (main validation_rejected) = snd (main (validation_rejected\<lparr>api_validate := None\<rparr>)) \<and>
   snd (main (validation_rejected\<lparr>api_validate := None\<rparr>)) = Complete [fact_of ''A''] ''grid''"
proof -
  have a: "api_validate validation_rejected = Some PanDeviceError"
    by (simp add: validation_rejected_def)
  have c: "snd (main (validation_rejected\<lparr>api_validate := None\<rparr>)) = Complete [fact_of ''A''] ''grid''"
    by code_simp
  from rejected_validation_only_logged[OF a] a c show ?thesis by blast
qed


section \<open>The connected-devices query\<close>

text \<open>
  The answer to \<open>show devices connected\<close> is bound to a variable that is never read.
\<close>

lemma enumerate_members_connected_answer:
  assumes "api_connected w = Inr r"
  shows "enumerate_members (w\<lparr>api_connected := Inr r'\<rparr>) = enumerate_members w"
proof -
  have "seq (op_step ApiConnected (Inr r')) (\<lambda>list_of_connected_devices. ([], Inr children)) =
        seq (op_step ApiConnected (Inr r)) (\<lambda>list_of_connected_devices. ([], Inr children))"
    for children :: "xv list"
    by (simp add: op_step_def seq_Inr)
  then show ?thesis
    by (simp add: enumerate_members_def assms)
qed

lemma validate_creds_cong: "api_validate w' = api_validate w \<Longrightarrow> validate_creds w' = validate_creds w"
  by (simp add: validate_creds_def)

lemma main_connected_answer:
  assumes "api_connected w = Inr r"
  shows "main (w\<lparr>api_connected := Inr r'\<rparr>) = main w"
proof -
  let ?w' = "w\<lparr>api_connected := Inr r'\<rparr>"
  have g: "gate_phase ?w' = gate_phase w" by (rule gate_phase_cong) simp_all
  have v: "validate_creds ?w' = validate_creds w" by (rule validate_creds_cong) simp
  have e: "enumerate_phase ?w' = enumerate_phase w"
    by (simp only: enumerate_phase_def v enumerate_members_connected_answer[OF assms])
  have l: "\<And>children. collect_loop ?w' 0 children [] = collect_loop w 0 children []"
    by (rule collect_loop_cong) simp_all
  have t: "\<And>report. render ?w' report = render w report"
    by (rule render_cong) simp
  have "audit ?w' = audit w"
    by (simp only: audit_def e l t)
  then show ?thesis
    by (simp only: main_def g)
qed

lemma gate_phase_no_api: "\<forall>ev\<in>set (fst (gate_phase w)). \<not> is_api ev"
proof (cases "ssh_connect w")
  case True
  show ?thesis
  proof (cases "\<forall>out. ssh_send w = Some out \<longrightarrow> count_fits out")
    case fits: True
    from netmiko_phase_connected[OF True fits] show ?thesis
      by (auto simp: gate_phase_eq is_api_def)
  next
    case False
    then obtain out where "ssh_send w = Some out" "\<not> count_fits out" by blast
    from netmiko_phase_raises[OF True this] show ?thesis
      by (simp add: gate_phase_eq is_api_def)
  qed
next
  case False
  then show ?thesis
    by (simp add: gate_phase_eq netmiko_phase_not_connected is_api_def)
qed

lemma enumerate_members_trace:
  "\<exists>mid. ApiConnected \<notin> set mid \<and>
     (fst (enumerate_members w) = ApiEnumerate # mid \<and> (\<forall>children. snd (enumerate_members w) \<noteq> Inr children) \<or>
      fst (enumerate_members w) = ApiEnumerate # mid @ [ApiConnected])"
proof (cases "api_enumerate w")
  case (Inl e)
  then show ?thesis
    by (intro exI[of _ "[]"]) (simp add: enumerate_members_def op_step_def seq_Inl)
next
  case (Inr list_of_redist_clients)
  note enum = Inr
  show ?thesis
  proof (cases "entry_of list_of_redist_clients")
    case (Inl e)
    with enum show ?thesis
      by (intro exI[of _ "[Log Debug ''list_of_redist_clients'']"])
         (simp add: enumerate_members_def op_step_def seq_Inl seq_Inr)
  next
    case (Inr entry)
    note ent = Inr
    obtain treg rreg where reg: "register_members entry = (treg, rreg)"
      by (cases "register_members entry")
    have "list_all (\<lambda>ev. ev \<noteq> ApiConnected) (fst (register_members entry))"
      by (rule register_members_events) simp
    with reg have treg: "ApiConnected \<notin> set treg" by (auto simp: list_all_iff)
    show ?thesis
    proof (cases rreg)
      case (Inl e)
      with enum ent reg treg show ?thesis
        by (intro exI[of _ "Log Debug ''list_of_redist_clients'' # treg"])
           (simp add: enumerate_members_def op_step_def seq_Inl seq_Inr)
    next
      case (Inr children)
      with enum ent reg treg show ?thesis
        by (intro exI[of _ "Log Debug ''list_of_redist_clients'' # treg @ [Log Debug ''pan.children'']"])
           (cases "api_connected w"; simp add: enumerate_members_def op_step_def seq_Inl seq_Inr)
    qed
  qed
qed

lemma main_connected_once:
  "\<exists>pre post. ApiConnected \<notin> set pre \<and> ApiConnected \<notin> set post \<and>
     (fst (main w) = pre \<and> (\<forall>report table. snd (main w) \<noteq> Complete report table) \<or>
      fst (main w) = pre @ ApiConnected # post \<and> ApiEnumerate \<in> set pre)"
proof -
  let ?EM = "enumerate_members w"
  have G: "ApiConnected \<notin> set (fst (gate_phase w))"
    using gate_phase_no_api[of w] by (auto simp: is_api_def)
  have "list_all (\<lambda>ev. ev \<noteq> ApiConnected) (fst (validate_creds w))"
    by (rule validate_creds_events) simp_all
  then have V: "ApiConnected \<notin> set (fst (validate_creds w))" by (auto simp: list_all_iff)
  have "list_all (\<lambda>ev. ev \<noteq> ApiConnected) (fst (collect_loop w 0 children []))" for children
    by (rule collect_loop_events) simp_all
  then have L: "ApiConnected \<notin> set (fst (collect_loop w 0 children []))" for children
    by (auto simp: list_all_iff)
  obtain mid where mid: "ApiConnected \<notin> set mid"
    and em: "fst ?EM = ApiEnumerate # mid \<and> (\<forall>children. snd ?EM \<noteq> Inr children) \<or>
             fst ?EM = ApiEnumerate # mid @ [ApiConnected]"
    using enumerate_members_trace by blast
  have fe: "fst (enumerate_phase w) =
     (case snd (validate_creds w) of Inl e \<Rightarrow> fst (validate_creds w)
      | Inr u \<Rightarrow> fst (validate_creds w) @ fst ?EM)"
    by (simp add: enumerate_phase_def fst_seq)
  have se: "snd (enumerate_phase w) =
     (case snd (validate_creds w) of Inl e \<Rightarrow> Inl e | Inr u \<Rightarrow> snd ?EM)"
    by (simp add: enumerate_phase_def snd_seq)
  show ?thesis
  proof (cases "snd (gate_phase w) = Inr True \<and> (\<exists>u. snd (validate_creds w) = Inr u) \<and>
                fst ?EM = ApiEnumerate # mid @ [ApiConnected]")
    case False
    have ne: "\<forall>children. snd (enumerate_phase w) \<noteq> Inr children"
      if "snd (gate_phase w) = Inr True"
      using False em that by (auto simp: se split: sum.splits)
    have nc: "\<forall>report table. snd (main w) \<noteq> Complete report table"
      using ne by (auto simp: snd_main snd_audit split: sum.splits if_splits)
    have fa: "fst (audit w) = fst (enumerate_phase w)" if "snd (gate_phase w) = Inr True"
      using ne[OF that] by (auto simp: fst_audit split: sum.splits)
    have "ApiConnected \<notin> set (fst (main w))"
    proof (cases "snd (gate_phase w) = Inr True")
      case True
      with False em have "fst ?EM = ApiEnumerate # mid \<or> (\<exists>e. snd (validate_creds w) = Inl e)"
        by (cases "snd (validate_creds w)") auto
      with True G V mid show ?thesis
        by (auto simp: fst_main fa fe split: sum.splits)
    next
      case False
      with G show ?thesis by (auto simp: fst_main split: sum.splits)
    qed
    with nc show ?thesis by blast
  next
    case True
    then obtain u where g: "snd (gate_phase w) = Inr True" and v: "snd (validate_creds w) = Inr u"
      and f: "fst ?EM = ApiEnumerate # mid @ [ApiConnected]" by blast
    define post where "post =
      (case snd ?EM of
         Inl e \<Rightarrow> []
       | Inr children \<Rightarrow>
           (case snd (collect_loop w 0 children []) of
              Inl e \<Rightarrow> fst (collect_loop w 0 children [])
            | Inr report \<Rightarrow> fst (collect_loop w 0 children []) @ [Print (make_table w report)]))"
    have p: "ApiConnected \<notin> set post"
      using L by (auto simp: post_def split: sum.splits)
    have "fst (audit w) = fst (validate_creds w) @ (ApiEnumerate # mid) @ ApiConnected # post"
      by (simp add: fst_audit fe se v f post_def split: sum.splits)
    then have "fst (main w) =
        (fst (gate_phase w) @ fst (validate_creds w) @ ApiEnumerate # mid) @ ApiConnected # post"
      by (simp add: fst_main g)
    moreover have "ApiConnected \<notin> set (fst (gate_phase w) @ fst (validate_creds w) @ ApiEnumerate # mid)"
      using G V mid by simp
    moreover have "ApiEnumerate \<in> set (fst (gate_phase w) @ fst (validate_creds w) @ ApiEnumerate # mid)"
      by simp
    ultimately show ?thesis using p by blast
  qed
qed

text \<open>
  C10. The answer to the connected-devices query never influences the run: replacing it
  by any other answer leaves the events and the outcome of the run, the report and the
  printed table included, unchanged. The query is issued at most once, and in a run that
  prints a report exactly once, after the enumeration query.
\<close>

theorem connected_devices_answer_unused:
  assumes "api_connected w = Inr r"
  shows "main (w\<lparr>api_connected := Inr r'\<rparr>) = main w \<and>
         count_list (fst (main w)) ApiConnected \<le> 1 \<and>
         (\<forall>report table. snd (main w) = Complete report table \<longrightarrow>
            (\<exists>pre post. fst (main w) = pre @ ApiConnected # post \<and> ApiEnumerate \<in> set pre \<and>
               ApiConnected \<notin> set pre \<and> ApiConnected \<notin> set post))"
proof -
  from main_connected_once[of w] obtain pre post where
    pre: "ApiConnected \<notin> set pre" and post: "ApiConnected \<notin> set post"
    and sh: "fst (main w) = pre \<and> (\<forall>report table. snd (main w) \<noteq> Complete report table) \<or>
             fst (main w) = pre @ ApiConnected # post \<and> ApiEnumerate \<in> set pre"
    by blast
  have c: "count_list pre ApiConnected = 0" "count_list post ApiConnected = 0"
    using pre post by (simp_all add: count_list_0_iff)
  from sh have "count_list (fst (main w)) ApiConnected \<le> 1"
    using c by auto
  moreover have "\<forall>report table. snd (main w) = Complete report table \<longrightarrow>
            (\<exists>pre post. fst (main w) = pre @ ApiConnected # post \<and> ApiEnumerate \<in> set pre \<and>
               ApiConnected \<notin> set pre \<and> ApiConnected \<notin> set post)"
    using sh pre post by blast
  ultimately show ?thesis using main_connected_answer[OF assms, of r'] by blast
qed

theorem connected_devices_answer_unused_witness:
  "api_connected fleet = Inr XNone \<and>
   main (fleet\<lparr>api_connected := Inr (in_response ''devices'' (XStr ''B''))\<rparr>) = main fleet \<and>
   snd (main fleet) = Complete [fact_of ''A'', fact_of ''B'', fact_of ''C''] ''grid'' \<and>
   count_list (fst (main fleet)) ApiConnected \<le> 1 \<and>
   (\<exists>pre post. fst (main fleet) = pre @ ApiConnected # post \<and> ApiEnumerate \<in> set pre \<and>
      ApiConnected \<notin> set pre \<and> ApiConnected \<notin> set post)"
proof -
  have a: "api_connected fleet = Inr XNone" by (simp add: fleet_def)
  have c: "snd (main fleet) = Complete [fact_of ''A'', fact_of ''B'', fact_of ''C''] ''grid''"
    by code_simp
  from connected_devices_answer_unused[OF a, of "in_response ''devices'' (XStr ''B'')"] a c
  show ?thesis by blast
qed

end
